theory Spec2Isabelle
  imports Complex_Main "HOL-Library.Sublist"
begin

section \<open>The transaction generator of A1/q1/generate_transactions.py\<close>

text \<open>
  The script reads a universe of items, builds clusters, and synthesises transactions with
  draws from one \<^verbatim>\<open>random.Random(42)\<close>. Each function below carries the name of the
  source function it embeds. Python's exceptions are values of \<open>py_error\<close>; a function that
  can raise returns \<open>py_error + 'a\<close>. The one loop without a bound, the fill loop of
  \<^verbatim>\<open>generate_transaction\<close>, is a partial function into \<open>option\<close>: \<open>None\<close> is a run that
  never returns.
\<close>

text \<open>
  \<open>OSError\<close> stands for the class with its subclasses other than IsADirectoryError
  (FileNotFoundError, PermissionError, a name the system refuses as too long).
\<close>

datatype py_error = ValueError | IndexError | OSError | IsADirectoryError | UnicodeDecodeError

subsection \<open>The random source\<close>

text \<open>
  \<^verbatim>\<open>random.Random\<close> is the standard library's Mersenne Twister, not code of this repository.
  The generator is a stream of raw draws; each library call consumes draws and maps them into
  the range the library documents for its result, and raises where the library raises. The
  numbers the real generator produces are not modelled: every theorem below quantifies over
  the stream, so it holds for each sequence of in-range results. Weights bias the
  probabilities of \<^verbatim>\<open>choices\<close> only; with a positive total any element is a possible result.
\<close>

type_synonym rng = "nat \<Rightarrow> nat"

definition draw :: "rng \<Rightarrow> nat \<times> rng" where
  "draw rng = (rng 0, \<lambda>i. rng (Suc i))"

text \<open>\<^verbatim>\<open>rng.randint(a, b)\<close>: an integer of \<open>[a, b]\<close>, ValueError on an empty range.\<close>

definition rng_randint :: "int \<Rightarrow> int \<Rightarrow> rng \<Rightarrow> py_error + int \<times> rng" where
  "rng_randint a b rng =
     (if b < a then Inl ValueError
      else case draw rng of (d, rng') \<Rightarrow> Inr (a + int (d mod nat (b - a + 1)), rng'))"

text \<open>\<^verbatim>\<open>rng.random()\<close>: a multiple of \<open>2\<^sup>-\<^sup>5\<^sup>3\<close> in \<open>[0, 1)\<close>.\<close>

definition rng_random :: "rng \<Rightarrow> real \<times> rng" where
  "rng_random rng = (case draw rng of (d, rng') \<Rightarrow> (real (d mod 2 ^ 53) / 2 ^ 53, rng'))"

text \<open>
  \<^verbatim>\<open>rng.sample(population, k)\<close>: \<open>k\<close> elements at distinct positions, in selection order;
  ValueError when \<open>k\<close> is negative or larger than the population.
\<close>

fun sample_pool :: "'a list \<Rightarrow> nat \<Rightarrow> rng \<Rightarrow> 'a list \<times> rng" where
  "sample_pool pool 0 rng = ([], rng)"
| "sample_pool pool (Suc k) rng =
     (case draw rng of (d, rng1) \<Rightarrow>
        let j = d mod length pool in
        case sample_pool (take j pool @ drop (Suc j) pool) k rng1 of
          (rest, rng2) \<Rightarrow> (pool ! j # rest, rng2))"

definition rng_sample :: "'a list \<Rightarrow> int \<Rightarrow> rng \<Rightarrow> py_error + 'a list \<times> rng" where
  "rng_sample population k rng =
     (if k < 0 \<or> int (length population) < k then Inl ValueError
      else Inr (sample_pool population (nat k) rng))"

text \<open>
  \<^verbatim>\<open>rng.choices(population, weights=w, k=1)[0]\<close>: one element of the population. The library
  raises ValueError when the number of weights differs from the population, IndexError on an
  empty population, ValueError when the weights do not sum to more than zero.
\<close>

definition rng_choices :: "'a list \<Rightarrow> real list \<Rightarrow> rng \<Rightarrow> py_error + 'a \<times> rng" where
  "rng_choices population weights rng =
     (if length weights \<noteq> length population then Inl ValueError
      else if population = [] then Inl IndexError
      else if sum_list weights \<le> 0 then Inl ValueError
      else case draw rng of (d, rng') \<Rightarrow> Inr (population ! (d mod length population), rng'))"

subsection \<open>Text: \<^verbatim>\<open>str.replace\<close>, \<^verbatim>\<open>str.split\<close>, \<^verbatim>\<open>int\<close>, \<^verbatim>\<open>str.join\<close>\<close>

text \<open>
  A \<open>char\<close> is a code point below 256. Python's whitespace there is 9 to 13, 28 to 32,
  133 and 160.
\<close>

definition is_space :: "char \<Rightarrow> bool" where
  "is_space c = ((of_char c :: nat) \<in> {9, 10, 11, 12, 13, 28, 29, 30, 31, 32, 133, 160})"

definition replace_comma :: "string \<Rightarrow> string" where
  "replace_comma text = map (\<lambda>c. if c = CHR '','' then CHR '' '' else c) text"

text \<open>\<^verbatim>\<open>text.split()\<close>: the maximal runs of non-whitespace, \<open>cur\<close> being the run in progress.\<close>

fun split_run :: "string \<Rightarrow> string \<Rightarrow> string list" where
  "split_run cur [] = (if cur = [] then [] else [cur])"
| "split_run cur (c # cs) =
     (if is_space c then (if cur = [] then split_run [] cs else cur # split_run [] cs)
      else split_run (cur @ [c]) cs)"

definition split_ws :: "string \<Rightarrow> string list" where
  "split_ws text = split_run [] text"

definition is_digit :: "char \<Rightarrow> bool" where
  "is_digit c = (48 \<le> (of_char c :: nat) \<and> (of_char c :: nat) \<le> 57)"

definition digit_val :: "char \<Rightarrow> nat" where
  "digit_val c = of_char c - 48"

text \<open>The digits after the first one: single underscores between digits are allowed.\<close>

fun parse_digits :: "nat \<Rightarrow> string \<Rightarrow> nat option" where
  "parse_digits acc [] = Some acc"
| "parse_digits acc [c] = (if is_digit c then Some (10 * acc + digit_val c) else None)"
| "parse_digits acc (c # d # ds) =
     (if is_digit c then parse_digits (10 * acc + digit_val c) (d # ds)
      else if c = CHR ''_'' \<and> is_digit d then parse_digits (10 * acc + digit_val d) ds
      else None)"

definition parse_unsigned :: "string \<Rightarrow> nat option" where
  "parse_unsigned s =
     (case s of [] \<Rightarrow> None
      | c # cs \<Rightarrow> if is_digit c then parse_digits (digit_val c) cs else None)"

text \<open>
  The whitespace that \<^verbatim>\<open>int\<close> strips is narrower than that of \<^verbatim>\<open>str.split\<close>: below 256 it
  is 9 to 13, 32, 133 and 160; the separators 28 to 31 are not stripped, and
  \<^verbatim>\<open>int('\x1c5')\<close> raises.
\<close>

definition is_int_space :: "char \<Rightarrow> bool" where
  "is_int_space c = ((of_char c :: nat) \<in> {9, 10, 11, 12, 13, 32, 133, 160})"

text \<open>The interpreter's default limit on the digits of a decimal string.\<close>

definition max_str_digits :: nat where
  "max_str_digits = 4300"

text \<open>
  \<^verbatim>\<open>int(s)\<close>: surrounding whitespace, an optional sign, decimal digits. \<open>None\<close> is the
  ValueError that \<^verbatim>\<open>main\<close> catches; a string of more than \<open>max_str_digits\<close> digits raises
  it too.
\<close>

definition py_int :: "string \<Rightarrow> int option" where
  "py_int s =
     (let body = rev (dropWhile is_int_space (rev (dropWhile is_int_space s))) in
      if max_str_digits < length (filter is_digit body) then None
      else case body of
        [] \<Rightarrow> None
      | c # cs \<Rightarrow>
          if c = CHR ''-'' then map_option (\<lambda>n. - int n) (parse_unsigned cs)
          else if c = CHR ''+'' then map_option int (parse_unsigned cs)
          else map_option int (parse_unsigned (c # cs)))"

fun join_space :: "string list \<Rightarrow> string" where
  "join_space [] = []"
| "join_space [x] = x"
| "join_space (x # y # ys) = x @ '' '' @ join_space (y # ys)"

subsection \<open>\<^verbatim>\<open>load_items\<close>\<close>

text \<open>
  The file system as the run meets it: what \<^verbatim>\<open>Path(p).exists()\<close> answers or raises, what
  \<^verbatim>\<open>Path(p).read_text()\<close> returns or raises, and the exception of \<^verbatim>\<open>open(p, "w")\<close> if it
  raises. On a real system the empty path names the current directory, so it exists and
  reading it raises IsADirectoryError; a name the system refuses (a component of more than
  255 bytes) makes \<^verbatim>\<open>exists()\<close> raise. The run asks each question at most once.
\<close>

record filesystem =
  path_exists :: "string \<Rightarrow> py_error + bool"
  read_text :: "string \<Rightarrow> py_error + string"
  open_write :: "string \<Rightarrow> py_error option"

fun load_items_loop :: "string list \<Rightarrow> string set \<Rightarrow> string list \<Rightarrow> string list" where
  "load_items_loop [] seen items = items"
| "load_items_loop (t # ts) seen items =
     (if t \<notin> seen then load_items_loop ts (insert t seen) (items @ [t])
      else load_items_loop ts seen items)"

definition load_items :: "filesystem \<Rightarrow> string \<Rightarrow> py_error + string list" where
  "load_items fs spec =
     (case path_exists fs spec of
        Inl e \<Rightarrow> Inl e
      | Inr True \<Rightarrow>
          (case read_text fs spec of
             Inl e \<Rightarrow> Inl e
           | Inr text \<Rightarrow> Inr (load_items_loop (split_ws (replace_comma text)) {} []))
      | Inr False \<Rightarrow> Inr (load_items_loop (split_ws (replace_comma spec)) {} []))"

subsection \<open>\<^verbatim>\<open>build_clusters\<close>\<close>

fun build_clusters_loop ::
  "string list \<Rightarrow> nat \<Rightarrow> string list list \<Rightarrow> rng \<Rightarrow> py_error + string list list \<times> rng" where
  "build_clusters_loop items 0 clusters rng = Inr (clusters, rng)"
| "build_clusters_loop items (Suc k) clusters rng =
     (let n = int (length items);
          min_sz = 3;
          max_sz = min 12 n;
          max_sz = (if max_sz < min_sz then min_sz else max_sz)
      in case rng_randint min_sz max_sz rng of
           Inl e \<Rightarrow> Inl e
         | Inr (sz, rng1) \<Rightarrow>
             (case rng_sample items sz rng1 of
                Inl e \<Rightarrow> Inl e
              | Inr (c, rng2) \<Rightarrow> build_clusters_loop items k (clusters @ [c]) rng2))"

text \<open>The weights are the quotients that the source's floats round.\<close>

definition build_clusters ::
  "string list \<Rightarrow> rng \<Rightarrow> py_error + (string list list \<times> real list) \<times> rng" where
  "build_clusters items rng =
     (let n = int (length items) in
      if n < 4 then Inr (([], []), rng)
      else
        let k = max 3 (min 10 (n div 5)) in
        case build_clusters_loop items (nat k) [] rng of
          Inl e \<Rightarrow> Inl e
        | Inr (clusters, rng') \<Rightarrow>
            Inr ((clusters, map (\<lambda>i. 1 / real (i + 1)) [0..<length clusters]), rng'))"

subsection \<open>\<^verbatim>\<open>choose_length\<close>\<close>

text \<open>The doubles that the literals \<^verbatim>\<open>0.10\<close> and \<^verbatim>\<open>0.70\<close> denote.\<close>

definition float_0_10 :: real where
  "float_0_10 = 3602879701896397 / 2 ^ 55"

definition float_0_70 :: real where
  "float_0_70 = 6305039478318694 / 2 ^ 53"

definition clamped_randint :: "int \<Rightarrow> int \<Rightarrow> int \<Rightarrow> rng \<Rightarrow> py_error + int \<times> rng" where
  "clamped_randint n_items a b rng =
     (case rng_randint a b rng of
        Inl e \<Rightarrow> Inl e
      | Inr (v, rng') \<Rightarrow> Inr (min n_items v, rng'))"

definition choose_length :: "int \<Rightarrow> rng \<Rightarrow> py_error + int \<times> rng" where
  "choose_length n_items rng =
     (if n_items \<le> 5 then Inr (max 2 n_items, rng)
      else case rng_random rng of (r, rng1) \<Rightarrow>
        if r < float_0_10 then clamped_randint n_items 3 5 rng1
        else if r < float_0_70 then clamped_randint n_items 6 12 rng1
        else clamped_randint n_items 12 20 rng1)"

subsection \<open>\<^verbatim>\<open>generate_transaction\<close>\<close>

definition min_pick :: "string list \<Rightarrow> int" where
  "min_pick cluster = (if 2 \<le> length cluster then 2 else 1)"

definition max_pick :: "string list \<Rightarrow> int \<Rightarrow> int" where
  "max_pick cluster len =
     max (min_pick cluster) (min (int (length cluster)) (max 2 (len div 2)))"

text \<open>Lines 70 to 76: the set \<open>chosen\<close> after the cluster seed.\<close>

definition cluster_seed ::
  "string list list \<Rightarrow> real list \<Rightarrow> int \<Rightarrow> rng \<Rightarrow> py_error + string set \<times> rng" where
  "cluster_seed clusters cluster_weights len rng =
     (if clusters \<noteq> [] then
        (case rng_choices clusters cluster_weights rng of
           Inl e \<Rightarrow> Inl e
         | Inr (cluster, rng1) \<Rightarrow>
             (case rng_randint (min_pick cluster) (max_pick cluster len) rng1 of
                Inl e \<Rightarrow> Inl e
              | Inr (pick, rng2) \<Rightarrow>
                  (case rng_sample cluster pick rng2 of
                     Inl e \<Rightarrow> Inl e
                   | Inr (picked, rng3) \<Rightarrow> Inr (set picked, rng3))))
      else Inr ({}, rng))"

text \<open>Lines 78 to 80: \<^verbatim>\<open>while len(chosen) < length\<close>.\<close>

partial_function (option) fill ::
  "string list \<Rightarrow> real list \<Rightarrow> int \<Rightarrow> string set \<Rightarrow> rng \<Rightarrow> (py_error + string set \<times> rng) option"
  where
  "fill items item_weights len chosen rng =
     (if int (card chosen) < len then
        (case rng_choices items item_weights rng of
           Inl e \<Rightarrow> Some (Inl e)
         | Inr (item, rng') \<Rightarrow> fill items item_weights len (insert item chosen) rng')
      else Some (Inr (chosen, rng)))"

declare fill.simps [code]

definition generate_transaction ::
  "string list \<Rightarrow> string list list \<Rightarrow> real list \<Rightarrow> real list \<Rightarrow> rng
     \<Rightarrow> (py_error + string list \<times> rng) option" where
  "generate_transaction items clusters cluster_weights item_weights rng =
     (let n = int (length items) in
      case choose_length n rng of
        Inl e \<Rightarrow> Some (Inl e)
      | Inr (len, rng1) \<Rightarrow>
          (case cluster_seed clusters cluster_weights len rng1 of
             Inl e \<Rightarrow> Some (Inl e)
           | Inr (chosen, rng2) \<Rightarrow>
               (case fill items item_weights len chosen rng2 of
                  None \<Rightarrow> None
                | Some (Inl e) \<Rightarrow> Some (Inl e)
                | Some (Inr (chosen', rng3)) \<Rightarrow>
                    Some (Inr (filter (\<lambda>it. it \<in> chosen') items, rng3)))))"

subsection \<open>\<^verbatim>\<open>main\<close>\<close>

datatype message =
    Usage
  | ErrorNotInteger
  | ErrorEmptyUniverse
  | Warning nat int
  | Wrote nat string

text \<open>
  How a run ends: \<^verbatim>\<open>sys.exit(code)\<close> or an uncaught exception, with the lines printed until
  then and no file opened for writing; or the end of \<^verbatim>\<open>main\<close>, with the lines printed, the
  output path and the text written to it. A failure while writing to the opened file is not
  modelled.
\<close>

datatype outcome =
    Exit int "message list"
  | Crashed py_error "message list"
  | Finished "message list" string string

text \<open>Lines 116 to 123: the loop over \<open>seen\<close>, \<open>transactions\<close> and \<open>attempts\<close>.\<close>

function main_loop ::
  "string list \<Rightarrow> string list list \<Rightarrow> real list \<Rightarrow> real list \<Rightarrow> int \<Rightarrow> int
     \<Rightarrow> string list set \<Rightarrow> string list list \<Rightarrow> int \<Rightarrow> rng
     \<Rightarrow> (py_error + string list list \<times> int \<times> rng) option" where
  "main_loop items clusters cluster_weights item_weights num_tx max_attempts
       seen transactions attempts rng =
     (if int (length transactions) < num_tx \<and> attempts < max_attempts then
        (case generate_transaction items clusters cluster_weights item_weights rng of
           None \<Rightarrow> None
         | Some (Inl e) \<Rightarrow> Some (Inl e)
         | Some (Inr (tx, rng')) \<Rightarrow>
             if tx \<in> seen then
               main_loop items clusters cluster_weights item_weights num_tx max_attempts
                 seen transactions (attempts + 1) rng'
             else
               main_loop items clusters cluster_weights item_weights num_tx max_attempts
                 (insert tx seen) (transactions @ [tx]) (attempts + 1) rng')
      else Some (Inr (transactions, attempts, rng)))"
  by pat_completeness auto
termination
  by (relation "measure (\<lambda>(items, clusters, cluster_weights, item_weights, num_tx,
        max_attempts, seen, transactions, attempts, rng). nat (max_attempts - attempts))")
     auto

definition item_weight :: "nat \<Rightarrow> real" where
  "item_weight i = 1 / (real (i + 1)) powr (11 / 10)"

definition write_lines :: "string list list \<Rightarrow> string" where
  "write_lines transactions = concat (map (\<lambda>tx. join_space tx @ [CHR 0x0A]) transactions)"

text \<open>
  \<open>Random\<close> is the library's constructor \<^verbatim>\<open>random.Random\<close> in this run: \<open>Random (Some x)\<close>
  is the generator seeded with \<open>x\<close>, \<open>Random None\<close> the one the library seeds from the
  operating system, which differs from run to run.
  Lines 104 to 123 of \<^verbatim>\<open>main\<close>, the Dataset Assembler: the transactions and the number of
  attempts made.
\<close>

definition assemble ::
  "(int option \<Rightarrow> rng) \<Rightarrow> string list \<Rightarrow> int
     \<Rightarrow> (py_error + string list list \<times> int) option" where
  "assemble Random items num_tx =
     (let rng = Random (Some 42) in
      case build_clusters items rng of
        Inl e \<Rightarrow> Some (Inl e)
      | Inr ((clusters, cluster_weights), rng1) \<Rightarrow>
          let item_weights = map item_weight [0..<length items];
              max_attempts = num_tx * 30
          in
          case main_loop items clusters cluster_weights item_weights num_tx
                 max_attempts {} [] 0 rng1 of
            None \<Rightarrow> None
          | Some (Inl e) \<Rightarrow> Some (Inl e)
          | Some (Inr (transactions, attempts, rng2)) \<Rightarrow> Some (Inr (transactions, attempts)))"

text \<open>\<open>argv\<close> is \<^verbatim>\<open>sys.argv\<close>, the script's name first.\<close>

definition main :: "(int option \<Rightarrow> rng) \<Rightarrow> string list \<Rightarrow> filesystem \<Rightarrow> outcome option" where
  "main Random argv fs =
     (if length argv \<noteq> 4 then Some (Exit 1 [Usage])
      else
        let item_spec = argv ! 1 in
        case py_int (argv ! 2) of
          None \<Rightarrow> Some (Exit 1 [ErrorNotInteger])
        | Some num_tx \<Rightarrow>
            let out_path = argv ! 3 in
            case load_items fs item_spec of
              Inl e \<Rightarrow> Some (Crashed e [])
            | Inr items \<Rightarrow>
                if items = [] then Some (Exit 1 [ErrorEmptyUniverse])
                else
                  case assemble Random items num_tx of
                    None \<Rightarrow> None
                  | Some (Inl e) \<Rightarrow> Some (Crashed e [])
                  | Some (Inr (transactions, attempts)) \<Rightarrow>
                      let warning = (if int (length transactions) < num_tx
                                     then [Warning (length transactions) num_tx] else [])
                      in
                      case open_write fs out_path of
                        Some e \<Rightarrow> Some (Crashed e warning)
                      | None \<Rightarrow>
                          Some (Finished (warning @ [Wrote (length transactions) out_path])
                                  out_path (write_lines transactions)))"

subsection \<open>The specification's reading of the loader\<close>

text \<open>
  The specification's words for the loader: commas become whitespace, the text is split on
  whitespace, and each token stays at the place of its first occurrence.
\<close>

fun first_seen :: "'a list \<Rightarrow> 'a list" where
  "first_seen [] = []"
| "first_seen (x # xs) = x # first_seen (filter (\<lambda>y. y \<noteq> x) xs)"

definition spec_universe :: "string \<Rightarrow> string list" where
  "spec_universe text = first_seen (split_ws (replace_comma text))"

subsection \<open>Well-formed clusters\<close>

text \<open>A cluster of the universe: 3 to \<open>min(12, n)\<close> distinct items of it.\<close>

definition cluster_ok :: "string list \<Rightarrow> string list \<Rightarrow> bool" where
  "cluster_ok items c \<longleftrightarrow>
     3 \<le> length c \<and> length c \<le> min 12 (length items) \<and> distinct c \<and> set c \<subseteq> set items"

subsection \<open>Suffixes of the random stream\<close>

text \<open>
  \<open>rng_drop k rng\<close> is the generator after \<open>k\<close> draws. A stream is fair for a universe of
  \<open>n\<close> items when every index below \<open>n\<close> keeps coming up among its draws, however many have
  been consumed.
\<close>

definition rng_drop :: "nat \<Rightarrow> rng \<Rightarrow> rng" where
  "rng_drop k rng = (\<lambda>i. rng (i + k))"

definition fair :: "nat \<Rightarrow> rng \<Rightarrow> bool" where
  "fair n rng \<longleftrightarrow> (\<forall>k. \<forall>v<n. \<exists>j\<ge>k. rng j mod n = v)"

subsection \<open>A working directory without files\<close>

text \<open>
  The answers of a working directory that holds no file, for the empty path, for \<^verbatim>\<open>.\<close> and
  for a relative name of one component: the first two are the directory itself, a name of
  more than 255 bytes is refused, any other name is free and can be created.
\<close>

definition is_cwd :: "string \<Rightarrow> bool" where
  "is_cwd p = (p = [] \<or> p = ''.'')"

definition bare_directory :: filesystem where
  "bare_directory =
     \<lparr> path_exists = (\<lambda>p. if is_cwd p then Inr True
                            else if 255 < length p then Inl OSError else Inr False),
       read_text = (\<lambda>p. if is_cwd p then Inl IsADirectoryError else Inl OSError),
       open_write = (\<lambda>p. if is_cwd p \<or> 255 < length p then Some OSError else None) \<rparr>"

declare main_loop.simps [simp del]

section \<open>The Item Universe Loader\<close>

lemma filter_neq_commute:
  "filter (\<lambda>y. y \<noteq> x) (filter P xs) = filter P (filter (\<lambda>y. y \<noteq> x) xs)"
  by (induction xs) auto

lemma first_seen_filter: "first_seen (filter P xs) = filter P (first_seen xs)"
proof (induction "length xs" arbitrary: xs rule: less_induct)
  case less
  show ?case
  proof (cases xs)
    case Nil
    then show ?thesis by simp
  next
    case (Cons x ys)
    have shorter: "length (filter (\<lambda>y. y \<noteq> x) ys) < length xs"
      using Cons by (simp add: less_Suc_eq_le)
    have ih: "first_seen (filter P (filter (\<lambda>y. y \<noteq> x) ys))
              = filter P (first_seen (filter (\<lambda>y. y \<noteq> x) ys))"
      using less [OF shorter] .
    show ?thesis
    proof (cases "P x")
      case True
      then show ?thesis using Cons ih by (simp add: filter_neq_commute del: filter_filter)
    next
      case False
      have "filter P (filter (\<lambda>y. y \<noteq> x) ys) = filter P ys"
        using False by (induction ys) auto
      then show ?thesis using Cons ih False by (simp del: filter_filter)
    qed
  qed
qed

lemma load_items_loop_first_seen:
  "load_items_loop ts seen items = items @ first_seen (filter (\<lambda>t. t \<notin> seen) ts)"
proof (induction ts arbitrary: seen items)
  case Nil
  show ?case by simp
next
  case (Cons t ts)
  have eq: "filter (\<lambda>y. y \<noteq> t) (filter (\<lambda>u. u \<notin> seen) ts)
            = filter (\<lambda>u. u \<notin> insert t seen) ts"
    by (induction ts) auto
  show ?case using Cons by (simp add: eq del: filter_filter)
qed

lemma first_seen_set: "set (first_seen xs) = set xs"
  by (induction xs rule: first_seen.induct) auto

lemma first_seen_distinct: "distinct (first_seen xs)"
  by (induction xs rule: first_seen.induct) (auto simp: first_seen_set)

lemma load_items_distinct: "load_items fs spec = Inr items \<Longrightarrow> distinct items"
  by (auto simp: load_items_def load_items_loop_first_seen first_seen_distinct
      split: sum.splits bool.splits)

lemma load_items_inline:
  "path_exists fs spec = Inr False \<Longrightarrow> load_items fs spec = Inr (spec_universe spec)"
  by (simp add: load_items_def spec_universe_def load_items_loop_first_seen)

lemma load_items_file:
  "path_exists fs spec = Inr True \<Longrightarrow> read_text fs spec = Inr text \<Longrightarrow>
     load_items fs spec = Inr (spec_universe text)"
  by (simp add: load_items_def spec_universe_def load_items_loop_first_seen)

lemma load_items_raises:
  "path_exists fs spec = Inr True \<Longrightarrow> read_text fs spec = Inl e \<Longrightarrow> load_items fs spec = Inl e"
  by (simp add: load_items_def)

text \<open>
  On the working directory without files, an inline list of more than 255 bytes is refused
  by \<^verbatim>\<open>exists()\<close> before it is ever read as a list.
\<close>

lemma load_items_name_too_long:
  "255 < length spec \<Longrightarrow> load_items bare_directory spec = Inl OSError"
  by (auto simp: load_items_def bare_directory_def is_cwd_def)

lemma spec_universe_xyz: "spec_universe ''x,y,z'' = [''x'', ''y'', ''z'']"
  by (simp add: spec_universe_def split_ws_def replace_comma_def is_space_def)

text \<open>
  C8 as stated fails on an existing path that is not a readable file. The argument \<^verbatim>\<open>.\<close>
  names the working directory: the path exists, reading it raises, and the loader returns
  no universe. The empty argument names the same directory.
\<close>

theorem load_items_directory_raises:
  "path_exists bare_directory ''.'' = Inr True
   \<and> load_items bare_directory ''.'' = Inl IsADirectoryError"
  by (simp add: load_items_def bare_directory_def is_cwd_def)

lemma load_items_empty_argument: "load_items bare_directory [] = Inl IsADirectoryError"
  by (simp add: load_items_def bare_directory_def is_cwd_def)

text \<open>
  C8, amended. When the argument names an existing path whose text can be read, the loader
  works on that text; when \<^verbatim>\<open>exists()\<close> answers that there is no such path, it works on the
  argument itself. In both cases it computes what the specification describes: commas to
  whitespace, split on whitespace, tokens kept in first-seen order. When the path exists
  and reading it raises, the loader raises the same exception. When no path is named
  \<^verbatim>\<open>x,y,z\<close>, that argument yields the universe x, y, z.
\<close>

theorem load_items_refines_spec:
  "(path_exists fs spec = Inr True \<and> read_text fs spec = Inr text \<longrightarrow>
      load_items fs spec = Inr (spec_universe text))
   \<and> (path_exists fs spec = Inr False \<longrightarrow> load_items fs spec = Inr (spec_universe spec))
   \<and> (path_exists fs spec = Inr True \<and> read_text fs spec = Inl e \<longrightarrow> load_items fs spec = Inl e)
   \<and> (path_exists fs ''x,y,z'' = Inr False \<longrightarrow>
        load_items fs ''x,y,z'' = Inr [''x'', ''y'', ''z''])"
  using load_items_inline [of fs "''x,y,z''"]
  by (simp add: load_items_inline load_items_file load_items_raises spec_universe_xyz)

theorem load_items_refines_spec_witness:
  "path_exists bare_directory ''x,y,z'' = Inr False
   \<and> load_items bare_directory ''x,y,z'' = Inr [''x'', ''y'', ''z'']
   \<and> load_items \<lparr> path_exists = (\<lambda>p. Inr (p = ''items.txt'')),
                    read_text = (\<lambda>p. Inr ''b a,b  c''),
                    open_write = (\<lambda>p. None) \<rparr> ''items.txt''
       = Inr (spec_universe ''b a,b  c'')
   \<and> spec_universe ''b a,b  c'' = [''b'', ''a'', ''c'']"
proof -
  have free: "path_exists bare_directory ''x,y,z'' = Inr False"
    by (simp add: bare_directory_def is_cwd_def)
  have uni: "spec_universe ''b a,b  c'' = [''b'', ''a'', ''c'']"
    by (simp add: spec_universe_def split_ws_def replace_comma_def is_space_def)
  show ?thesis
    using free uni
      load_items_refines_spec [of bare_directory "''x,y,z''"]
      load_items_refines_spec [of "\<lparr> path_exists = (\<lambda>p. Inr (p = ''items.txt'')),
                    read_text = (\<lambda>p. Inr ''b a,b  c''),
                    open_write = (\<lambda>p. None) \<rparr>" "''items.txt''" "''b a,b  c''"]
    by (simp add: spec_universe_xyz)
qed

section \<open>The random source and the Cluster Builder\<close>

lemma rng_randint_range:
  assumes "a \<le> b"
  shows "\<exists>v rng'. rng_randint a b rng = Inr (v, rng') \<and> a \<le> v \<and> v \<le> b"
proof -
  obtain d rng' where d: "draw rng = (d, rng')" by (cases "draw rng")
  have pos: "0 < nat (b - a + 1)" using assms by simp
  have "d mod nat (b - a + 1) < nat (b - a + 1)" using pos by (rule mod_less_divisor)
  then have "int (d mod nat (b - a + 1)) \<le> b - a" by linarith
  then show ?thesis using assms d by (simp add: rng_randint_def)
qed

lemma remove_nth_distinct:
  assumes "distinct pool" "j < length pool"
  shows "distinct (take j pool @ drop (Suc j) pool) \<and> pool ! j \<notin> set (take j pool @ drop (Suc j) pool)"
proof -
  have "pool = take j pool @ pool ! j # drop (Suc j) pool"
    using assms(2) by (rule id_take_nth_drop)
  then have "distinct (take j pool @ pool ! j # drop (Suc j) pool)"
    using assms(1) by simp
  then show ?thesis by auto
qed

lemma remove_nth_subset: "set (take j pool @ drop (Suc j) pool) \<subseteq> set pool"
  using set_take_subset [of j pool] set_drop_subset [of "Suc j" pool] by auto

lemma sample_pool_props:
  "k \<le> length pool \<Longrightarrow>
     length (fst (sample_pool pool k rng)) = k
     \<and> set (fst (sample_pool pool k rng)) \<subseteq> set pool
     \<and> (distinct pool \<longrightarrow> distinct (fst (sample_pool pool k rng)))"
proof (induction k arbitrary: pool rng)
  case 0
  show ?case by simp
next
  case (Suc k)
  obtain d rng1 where d: "draw rng = (d, rng1)" by (cases "draw rng")
  define j where "j = d mod length pool"
  define pool' where "pool' = take j pool @ drop (Suc j) pool"
  obtain rest rng2 where rest: "sample_pool pool' k rng1 = (rest, rng2)"
    by (cases "sample_pool pool' k rng1")
  have "0 < length pool" using Suc.prems by (cases pool) auto
  then have j: "j < length pool" by (simp add: j_def)
  have len: "k \<le> length pool'" using Suc.prems j by (simp add: pool'_def)
  have ih: "length rest = k \<and> set rest \<subseteq> set pool' \<and> (distinct pool' \<longrightarrow> distinct rest)"
    using Suc.IH [OF len, of rng1] rest by simp
  have res: "fst (sample_pool pool (Suc k) rng) = pool ! j # rest"
    using d rest by (simp add: j_def pool'_def Let_def)
  have sub: "set pool' \<subseteq> set pool" unfolding pool'_def by (rule remove_nth_subset)
  have mem: "pool ! j \<in> set pool" using j by simp
  have dis: "distinct pool \<longrightarrow> distinct pool' \<and> pool ! j \<notin> set pool'"
    using remove_nth_distinct [of pool j] j by (simp add: pool'_def)
  show ?case unfolding res using ih sub mem dis by auto
qed

lemma rng_sample_props:
  assumes "0 \<le> k" "k \<le> int (length population)"
  shows "\<exists>c rng'. rng_sample population k rng = Inr (c, rng') \<and> int (length c) = k
           \<and> set c \<subseteq> set population \<and> (distinct population \<longrightarrow> distinct c)"
proof -
  have le: "nat k \<le> length population" using assms by simp
  obtain c rng' where c: "sample_pool population (nat k) rng = (c, rng')"
    by (cases "sample_pool population (nat k) rng")
  show ?thesis using sample_pool_props [OF le, of rng] c assms by (simp add: rng_sample_def)
qed

lemma build_clusters_loop_props:
  assumes "distinct items" "3 \<le> length items"
  shows "\<exists>new rng'. build_clusters_loop items k clusters rng = Inr (clusters @ new, rng')
           \<and> length new = k \<and> (\<forall>c\<in>set new. cluster_ok items c)"
proof (induction k arbitrary: clusters rng)
  case 0
  show ?case by simp
next
  case (Suc k)
  define hi where "hi = min 12 (int (length items))"
  have hi: "3 \<le> hi" using assms(2) by (simp add: hi_def)
  obtain sz rng1 where sz: "rng_randint 3 hi rng = Inr (sz, rng1)" "3 \<le> sz" "sz \<le> hi"
    using rng_randint_range [OF hi, of rng] by blast
  have "0 \<le> sz" "sz \<le> int (length items)" using sz by (simp_all add: hi_def)
  then obtain c rng2 where c: "rng_sample items sz rng1 = Inr (c, rng2)" "int (length c) = sz"
      "set c \<subseteq> set items" "distinct c"
    using rng_sample_props [of sz items rng1] assms(1) by blast
  have ok: "cluster_ok items c" using c sz by (simp add: cluster_ok_def hi_def)
  obtain new rng' where new: "build_clusters_loop items k (clusters @ [c]) rng2 = Inr ((clusters @ [c]) @ new, rng')"
      "length new = k" "\<forall>c\<in>set new. cluster_ok items c"
    using Suc [of "clusters @ [c]" rng2] by blast
  have nlt: "\<not> min 12 (int (length items)) < 3" using assms(2) by simp
  have "build_clusters_loop items (Suc k) clusters rng = Inr (clusters @ (c # new), rng')"
    using sz(1) c(1) new(1) nlt by (simp add: hi_def Let_def)
  then show ?case using new(2,3) ok by (intro exI [of _ "c # new"] exI [of _ rng']) simp
qed

text \<open>
  C9. A universe of fewer than 4 items gets no cluster and no weight, and the generator is
  left untouched. A universe of \<open>n \<ge> 4\<close> distinct items gets exactly
  \<open>max 3 (min 10 (n div 5))\<close> clusters, each of 3 to \<open>min(12, n)\<close> distinct items of the
  universe, and a weight list of the same length whose entry at 0-based rank \<open>r\<close> is
  \<open>1 / (r + 1)\<close>.
\<close>

theorem build_clusters_shape:
  assumes "distinct items"
  shows "(length items < 4 \<longrightarrow> build_clusters items rng = Inr (([], []), rng))
       \<and> (4 \<le> length items \<longrightarrow>
            (\<exists>clusters weights rng'.
               build_clusters items rng = Inr ((clusters, weights), rng')
               \<and> int (length clusters) = max 3 (min 10 (int (length items) div 5))
               \<and> (\<forall>c\<in>set clusters. cluster_ok items c)
               \<and> length weights = length clusters
               \<and> (\<forall>rank<length clusters. weights ! rank = 1 / real (rank + 1))))"
proof (intro conjI impI)
  assume "length items < 4"
  then show "build_clusters items rng = Inr (([], []), rng)"
    by (simp add: build_clusters_def)
next
  assume n: "4 \<le> length items"
  define k where "k = nat (max 3 (min 10 (int (length items) div 5)))"
  have "3 \<le> length items" using n by simp
  then obtain new rng' where new: "build_clusters_loop items k [] rng = Inr ([] @ new, rng')"
      "length new = k" "\<forall>c\<in>set new. cluster_ok items c"
    using build_clusters_loop_props [OF assms, of k "[]" rng] by blast
  have "build_clusters items rng = Inr ((new, map (\<lambda>i. 1 / real (i + 1)) [0..<length new]), rng')"
    using n new(1) by (simp add: build_clusters_def k_def Let_def)
  moreover have "int (length new) = max 3 (min 10 (int (length items) div 5))"
    using new(2) by (simp add: k_def)
  ultimately show "\<exists>clusters weights rng'.
               build_clusters items rng = Inr ((clusters, weights), rng')
               \<and> int (length clusters) = max 3 (min 10 (int (length items) div 5))
               \<and> (\<forall>c\<in>set clusters. cluster_ok items c)
               \<and> length weights = length clusters
               \<and> (\<forall>rank<length clusters. weights ! rank = 1 / real (rank + 1))"
    using new(3) by simp
qed

theorem build_clusters_shape_witness:
  "distinct [''a'', ''b'', ''c'', ''d'']
   \<and> (\<exists>clusters weights rng'.
         build_clusters [''a'', ''b'', ''c'', ''d''] (\<lambda>i. i) = Inr ((clusters, weights), rng')
         \<and> int (length clusters) = 3
         \<and> (\<forall>c\<in>set clusters. cluster_ok [''a'', ''b'', ''c'', ''d''] c)
         \<and> length weights = length clusters
         \<and> (\<forall>rank<length clusters. weights ! rank = 1 / real (rank + 1)))
   \<and> build_clusters [''a'', ''b'', ''c''] (\<lambda>i. i) = Inr (([], []), \<lambda>i. i)"
  using build_clusters_shape [of "[''a'', ''b'', ''c'', ''d'']" "\<lambda>i. i"]
    build_clusters_shape [of "[''a'', ''b'', ''c'']" "\<lambda>i. i"]
  by simp

section \<open>The fill loop\<close>

lemma draw_drop: "draw rng = (rng 0, rng_drop 1 rng)"
  by (simp add: draw_def rng_drop_def)

lemma rng_drop_0: "rng_drop 0 rng = rng"
  by (simp add: rng_drop_def)

lemma rng_drop_drop: "rng_drop a (rng_drop b rng) = rng_drop (a + b) rng"
  by (simp add: rng_drop_def add.assoc)

lemma rng_drop_apply: "rng_drop k rng i = rng (i + k)"
  by (simp add: rng_drop_def)

lemma sum_list_positive:
  fixes ws :: "real list"
  shows "ws \<noteq> [] \<Longrightarrow> \<forall>w\<in>set ws. 0 < w \<Longrightarrow> 0 < sum_list ws"
proof (induction ws)
  case Nil
  then show ?case by simp
next
  case (Cons w ws)
  show ?case
  proof (cases ws)
    case Nil
    then show ?thesis using Cons.prems by simp
  next
    case (Cons v vs)
    then have "0 < sum_list ws" using Cons.IH Cons.prems by simp
    then show ?thesis using Cons.prems by (simp add: add_pos_pos)
  qed
qed

lemma item_weight_pos: "0 < item_weight i"
  by (simp add: item_weight_def)

lemma item_weights_total: "items \<noteq> [] \<Longrightarrow> 0 < sum_list (map item_weight [0..<length items])"
  by (rule sum_list_positive) (auto simp: item_weight_pos)

lemma rng_choices_Inr:
  "rng_choices population weights rng = Inr (x, rng') \<Longrightarrow>
     population \<noteq> [] \<and> x = population ! (rng 0 mod length population) \<and> x \<in> set population \<and> rng' = rng_drop 1 rng"
  by (auto simp: rng_choices_def draw_drop split: if_splits)

lemma rng_choices_ok:
  "population \<noteq> [] \<Longrightarrow> length weights = length population \<Longrightarrow> 0 < sum_list weights \<Longrightarrow>
     rng_choices population weights rng
       = Inr (population ! (rng 0 mod length population), rng_drop 1 rng)"
  by (simp add: rng_choices_def draw_drop)


lemma fill_cases_induct [consumes 1, case_names stop err step]:
  assumes run: "fill items item_weights len chosen rng = Some res"
    and stop: "\<And>chosen rng. \<not> int (card chosen) < len \<Longrightarrow> P chosen rng (Inr (chosen, rng))"
    and err: "\<And>chosen rng e. int (card chosen) < len \<Longrightarrow>
                rng_choices items item_weights rng = Inl e \<Longrightarrow> P chosen rng (Inl e)"
    and step: "\<And>chosen rng item rng' res. int (card chosen) < len \<Longrightarrow>
                rng_choices items item_weights rng = Inr (item, rng') \<Longrightarrow>
                P (insert item chosen) rng' res \<Longrightarrow> P chosen rng res"
  shows "P chosen rng res"
proof -
  let ?Q = "\<lambda>its ws l chosen rng res. its = items \<and> ws = item_weights \<and> l = len \<longrightarrow> P chosen rng res"
  have "?Q items item_weights len chosen rng res"
  proof (rule fill.raw_induct [where P = ?Q, OF _ run])
    fix fill' its ws l chosen rng res
    assume ih: "\<And>its ws l chosen rng res. fill' its ws l chosen rng = Some res \<Longrightarrow> ?Q its ws l chosen rng res"
      and eq: "(if int (card chosen) < l
                then case rng_choices its ws rng of
                       Inl e \<Rightarrow> Some (Inl e)
                     | Inr (item, rng') \<Rightarrow> fill' its ws l (insert item chosen) rng'
                else Some (Inr (chosen, rng))) = Some res"
    show "?Q its ws l chosen rng res"
    proof (intro impI, elim conjE)
      assume same: "its = items" "ws = item_weights" "l = len"
      show "P chosen rng res"
      proof (cases "int (card chosen) < len")
        case False
        then have "res = Inr (chosen, rng)" using eq same by simp
        then show ?thesis using stop [OF False] by simp
      next
        case True
        show ?thesis
        proof (cases "rng_choices items item_weights rng")
          case (Inl e)
          then have "res = Inl e" using eq same True by simp
          then show ?thesis using err [OF True Inl] by simp
        next
          case (Inr p)
          obtain item rng' where p: "p = (item, rng')" by (cases p)
          have choice: "rng_choices items item_weights rng = Inr (item, rng')"
            using Inr p by simp
          have "fill' items item_weights len (insert item chosen) rng' = Some res"
            using eq same True choice by simp
          from ih [OF this] have "P (insert item chosen) rng' res" by simp
          then show ?thesis by (rule step [OF True choice])
        qed
      qed
    qed
  qed
  then show ?thesis by simp
qed


lemma fill_result_aux:
  assumes "fill items item_weights len chosen rng = Some res"
  shows "finite chosen \<longrightarrow>
          (case res of Inl e \<Rightarrow> True
           | Inr (chosen', rng') \<Rightarrow>
               finite chosen' \<and> chosen \<subseteq> chosen' \<and> chosen' \<subseteq> chosen \<union> set items
               \<and> len \<le> int (card chosen')
               \<and> (int (card chosen) \<le> len \<longrightarrow> int (card chosen') = len))"
  using assms
proof (induction chosen rng res rule: fill_cases_induct)
  case (stop chosen rng)
  then show ?case by auto
next
  case (err chosen rng e)
  show ?case by simp
next
  case (step chosen rng item rng' res)
  have item: "item \<in> set items" using rng_choices_Inr [OF step(2)] by simp
  show ?case
  proof (cases res)
    case (Inl e)
    then show ?thesis by simp
  next
    case (Inr p)
    obtain c' r' where p: "p = (c', r')" by (cases p)
    show ?thesis
    proof
      assume fin: "finite chosen"
      have le: "int (card (insert item chosen)) \<le> len"
        using step(1) fin by (simp add: card_insert_if)
      have ih: "finite c' \<and> insert item chosen \<subseteq> c' \<and> c' \<subseteq> insert item chosen \<union> set items
                 \<and> len \<le> int (card c') \<and> int (card c') = len"
        using step(3) fin le Inr p by simp
      have "chosen \<subseteq> c'" using ih by blast
      moreover have "c' \<subseteq> chosen \<union> set items" using ih item by blast
      ultimately show "case res of Inl e \<Rightarrow> True
         | Inr (chosen', rng') \<Rightarrow>
             finite chosen' \<and> chosen \<subseteq> chosen' \<and> chosen' \<subseteq> chosen \<union> set items
             \<and> len \<le> int (card chosen')
             \<and> (int (card chosen) \<le> len \<longrightarrow> int (card chosen') = len)"
        using ih Inr p by simp
    qed
  qed
qed

lemma fill_result:
  assumes "fill items item_weights len chosen rng = Some (Inr (chosen', rng'))" "finite chosen"
  shows "finite chosen' \<and> chosen \<subseteq> chosen' \<and> chosen' \<subseteq> chosen \<union> set items
           \<and> len \<le> int (card chosen')
           \<and> (int (card chosen) \<le> len \<longrightarrow> int (card chosen') = len)"
  using fill_result_aux [OF assms(1)] assms(2) by simp

lemma fill_too_long_aux:
  assumes "fill items item_weights len chosen rng = Some res"
    "int (card (set items)) < len"
  shows "chosen \<subseteq> set items \<longrightarrow> (\<exists>e. res = Inl e)"
  using assms(1)
proof (induction chosen rng res rule: fill_cases_induct)
  case (stop chosen rng)
  show ?case
  proof
    assume "chosen \<subseteq> set items"
    then have "card chosen \<le> card (set items)" by (simp add: card_mono)
    then show "\<exists>e. Inr (chosen, rng) = Inl e" using stop assms(2) by linarith
  qed
next
  case (err chosen rng e)
  show ?case by simp
next
  case (step chosen rng item rng' res)
  have "item \<in> set items" using rng_choices_Inr [OF step(2)] by simp
  then show ?case using step(3) by simp
qed

lemma fill_never_errs:
  assumes "fill items item_weights len chosen rng = Some res"
    "items \<noteq> []" "length item_weights = length items" "0 < sum_list item_weights"
  shows "\<exists>chosen' rng'. res = Inr (chosen', rng')"
  using assms(1)
proof (induction chosen rng res rule: fill_cases_induct)
  case (stop chosen rng)
  show ?case by simp
next
  case (err chosen rng e)
  then show ?case using assms(2-) by (simp add: rng_choices_ok)
next
  case (step chosen rng item rng' res)
  then show ?case by simp
qed

lemma fill_diverges:
  assumes "items \<noteq> []" "length item_weights = length items" "0 < sum_list item_weights"
    "chosen \<subseteq> set items" "int (card (set items)) < len"
  shows "fill items item_weights len chosen rng = None"
proof (cases "fill items item_weights len chosen rng")
  case None
  then show ?thesis .
next
  case (Some res)
  obtain e where "res = Inl e" using fill_too_long_aux [OF Some assms(5)] assms(4) by blast
  moreover obtain c r where "res = Inr (c, r)" using fill_never_errs [OF Some assms(1-3)] by blast
  ultimately show ?thesis by simp
qed

section \<open>A universe of one item\<close>

lemma choose_length_small: "n \<le> 5 \<Longrightarrow> choose_length n rng = Inr (max 2 n, rng)"
  by (simp add: choose_length_def)

lemma cluster_seed_none: "cluster_seed [] cluster_weights len rng = Inr ({}, rng)"
  by (simp add: cluster_seed_def)

lemma generate_transaction_single:
  assumes "length ws = 1" "0 < sum_list ws"
  shows "generate_transaction [x] [] [] ws rng = None"
proof -
  have "fill [x] ws 2 {} rng = None"
    by (rule fill_diverges) (use assms in simp_all)
  then show ?thesis
    by (simp add: generate_transaction_def choose_length_small cluster_seed_none)
qed

text \<open>
  C5, at a universe of one item. \<^verbatim>\<open>choose_length\<close> returns 2 there, the fill loop can
  never hold two items, and the synthesizer does not return: no transaction of length 1 is
  produced.
\<close>

theorem single_item_never_returns:
  "generate_transaction [''a''] [] [] (map item_weight [0..<1]) rng = None"
  by (rule generate_transaction_single) (simp_all add: item_weight_pos)

lemmas py_int_simps = py_int_def Let_def max_str_digits_def is_int_space_def
  parse_unsigned_def is_digit_def digit_val_def

lemma py_int_1: "py_int ''1'' = Some 1"
  by (simp add: py_int_simps)

lemma py_int_5: "py_int ''5'' = Some 5"
  by (simp add: py_int_simps)

lemma bare_directory_free:
  "\<not> is_cwd p \<Longrightarrow> length p \<le> 255 \<Longrightarrow>
     path_exists bare_directory p = Inr False \<and> open_write bare_directory p = None"
  by (simp add: bare_directory_def)

lemma load_items_a: "load_items bare_directory ''a'' = Inr [''a'']"
  by (simp add: load_items_def bare_directory_def is_cwd_def split_ws_def replace_comma_def
      is_space_def)

lemma main_loop_single:
  assumes "length ws = 1" "0 < sum_list ws" "0 < num_tx"
  shows "main_loop [x] [] [] ws num_tx (num_tx * 30) {} [] 0 rng = None"
  using assms by (subst main_loop.simps) (simp add: generate_transaction_single)

lemma assemble_single:
  assumes "0 < num_tx"
  shows "assemble Random [x] num_tx = None"
proof -
  have "main_loop [x] [] [] [item_weight 0] num_tx (num_tx * 30) {} [] 0 rng = None" for rng
    using assms by (intro main_loop_single) (simp_all add: item_weight_pos)
  then show ?thesis by (simp add: assemble_def build_clusters_def)
qed

text \<open>
  C4, at the universe \<^verbatim>\<open>a\<close> with one transaction requested. Whatever the random source,
  the run does not return: the first synthesis attempt stays in the fill loop, which the
  retry budget does not bound.
\<close>

theorem main_single_item_never_returns:
  "main Random [''generate_transactions.py'', ''a'', ''1'', ''out.txt''] bare_directory = None"
  by (simp add: main_def py_int_1 load_items_a assemble_single)

text \<open>
  C6, at the universe \<^verbatim>\<open>a\<close> with five transactions requested, a universe too small for
  the count. The assembler does not return and neither does the run: no attempt is
  completed, no warning is printed and no file is written.
\<close>

theorem shortfall_single_item_never_returns:
  "assemble Random [''a''] 5 = None
   \<and> main Random [''generate_transactions.py'', ''a'', ''5'', ''out.txt''] bare_directory = None"
  by (simp add: main_def py_int_5 load_items_a assemble_single)

section \<open>Input errors\<close>

lemma py_int_abc: "py_int ''abc'' = None"
  by (simp add: py_int_simps)

text \<open>A separator that \<^verbatim>\<open>str.split\<close> treats as whitespace is not one for \<^verbatim>\<open>int\<close>.\<close>

lemma py_int_separator: "py_int [CHR 0x1C, CHR ''5''] = None"
  by (simp add: py_int_simps)

text \<open>
  C7. With the three arguments given, a count that \<^verbatim>\<open>int\<close> rejects ends the run by
  \<^verbatim>\<open>sys.exit(1)\<close> after the integer message; a count that parses with an empty resolved
  universe ends it by \<^verbatim>\<open>sys.exit(1)\<close> after the empty-universe message. Such an end carries
  no file: nothing was generated and no output file was opened. The count \<^verbatim>\<open>abc\<close> is
  rejected.
\<close>

theorem main_input_errors:
  assumes "length argv = 4"
  shows "(py_int (argv ! 2) = None \<longrightarrow> main Random argv fs = Some (Exit 1 [ErrorNotInteger]))
       \<and> (py_int (argv ! 2) \<noteq> None \<and> load_items fs (argv ! 1) = Inr [] \<longrightarrow>
            main Random argv fs = Some (Exit 1 [ErrorEmptyUniverse]))
       \<and> (argv ! 2 = ''abc'' \<longrightarrow> main Random argv fs = Some (Exit 1 [ErrorNotInteger]))"
  using assms py_int_abc by (auto simp: main_def Let_def)

theorem main_input_errors_witness:
  "length [''gen'', '' , '', ''5'', ''out.txt''] = 4
   \<and> py_int ''5'' \<noteq> None \<and> load_items bare_directory '' , '' = Inr []
   \<and> main (\<lambda>seed i. i) [''gen'', '' , '', ''5'', ''out.txt''] bare_directory
       = Some (Exit 1 [ErrorEmptyUniverse])
   \<and> main (\<lambda>seed i. i) [''gen'', ''a b c'', ''abc'', ''out.txt''] bare_directory
       = Some (Exit 1 [ErrorNotInteger])"
proof -
  have none: "load_items bare_directory '' , '' = Inr []"
    by (simp add: load_items_def bare_directory_def is_cwd_def split_ws_def replace_comma_def
        is_space_def)
  show ?thesis
    using py_int_5 none
      main_input_errors [of "[''gen'', '' , '', ''5'', ''out.txt'']" "\<lambda>seed i. i" bare_directory]
      main_input_errors [of "[''gen'', ''a b c'', ''abc'', ''out.txt'']" "\<lambda>seed i. i" bare_directory]
    by simp
qed

section \<open>The Transaction Synthesizer and the Dataset Assembler\<close>

lemma generate_transaction_filter:
  assumes "generate_transaction items clusters cluster_weights item_weights rng = Some (Inr (tx, rng'))"
  shows "\<exists>chosen. tx = filter (\<lambda>it. it \<in> chosen) items"
  using assms
  by (auto simp: generate_transaction_def Let_def split: sum.splits option.splits prod.splits)

lemma generate_transaction_subseq:
  assumes "generate_transaction items clusters cluster_weights item_weights rng = Some (Inr (tx, rng'))"
  shows "subseq tx items \<and> set tx \<subseteq> set items"
proof -
  obtain chosen where "tx = filter (\<lambda>it. it \<in> chosen) items"
    using generate_transaction_filter [OF assms] by blast
  then show ?thesis by auto
qed

lemma main_loop_stop:
  "\<not> (int (length transactions) < num_tx \<and> attempts < max_attempts) \<Longrightarrow>
     main_loop items clusters cluster_weights item_weights num_tx max_attempts
       seen transactions attempts rng = Some (Inr (transactions, attempts, rng))"
  by (subst main_loop.simps) (rule if_not_P)

lemma main_loop_step:
  "int (length transactions) < num_tx \<Longrightarrow> attempts < max_attempts \<Longrightarrow>
     main_loop items clusters cluster_weights item_weights num_tx max_attempts
       seen transactions attempts rng =
     (case generate_transaction items clusters cluster_weights item_weights rng of
        None \<Rightarrow> None
      | Some (Inl e) \<Rightarrow> Some (Inl e)
      | Some (Inr (tx, rng')) \<Rightarrow>
          if tx \<in> seen then
            main_loop items clusters cluster_weights item_weights num_tx max_attempts
              seen transactions (attempts + 1) rng'
          else
            main_loop items clusters cluster_weights item_weights num_tx max_attempts
              (insert tx seen) (transactions @ [tx]) (attempts + 1) rng')"
  by (subst main_loop.simps) simp

lemma main_loop_invariant:
  assumes "main_loop items clusters cluster_weights item_weights num_tx max_attempts
             seen transactions attempts rng = Some (Inr (transactions', attempts', rng'))"
    and "I seen transactions attempts"
    and step: "\<And>seen transactions attempts rng tx rng1.
        I seen transactions attempts \<Longrightarrow> int (length transactions) < num_tx \<Longrightarrow>
        attempts < max_attempts \<Longrightarrow>
        generate_transaction items clusters cluster_weights item_weights rng = Some (Inr (tx, rng1)) \<Longrightarrow>
        (tx \<in> seen \<longrightarrow> I seen transactions (attempts + 1))
        \<and> (tx \<notin> seen \<longrightarrow> I (insert tx seen) (transactions @ [tx]) (attempts + 1))"
  shows "\<exists>seen'. I seen' transactions' attempts'
           \<and> \<not> (int (length transactions') < num_tx \<and> attempts' < max_attempts)"
  using assms
proof (induction items clusters cluster_weights item_weights num_tx max_attempts
         seen transactions attempts rng rule: main_loop.induct)
  case (1 items clusters cluster_weights item_weights num_tx max_attempts seen transactions attempts rng)
  note step1 = "1.prems"(3)
  show ?case
  proof (cases "int (length transactions) < num_tx \<and> attempts < max_attempts")
    case False
    have "transactions' = transactions \<and> attempts' = attempts"
      using "1.prems"(1) main_loop_stop [OF False] by simp
    then show ?thesis using "1.prems"(2) False by blast
  next
    case True
    then have c1: "int (length transactions) < num_tx" and c2: "attempts < max_attempts" by simp_all
    note eq = main_loop_step [OF c1 c2, of items clusters cluster_weights item_weights seen rng]
    obtain tx rng1 where gen: "generate_transaction items clusters cluster_weights item_weights rng = Some (Inr (tx, rng1))"
      using "1.prems"(1) eq by (auto split: option.splits sum.splits)
    note st = step1 [OF "1.prems"(2) c1 c2 gen]
    show ?thesis
    proof (cases "tx \<in> seen")
      case True
      have run: "main_loop items clusters cluster_weights item_weights num_tx max_attempts
              seen transactions (attempts + 1) rng1 = Some (Inr (transactions', attempts', rng'))"
        using "1.prems"(1) eq gen True by simp
      have inv: "I seen transactions (attempts + 1)" using st True by simp
      show ?thesis
        using "1.IH"(1) [OF \<open>int (length transactions) < num_tx \<and> attempts < max_attempts\<close> gen refl refl True run inv step1] .
    next
      case False
      have run: "main_loop items clusters cluster_weights item_weights num_tx max_attempts
              (insert tx seen) (transactions @ [tx]) (attempts + 1) rng1 = Some (Inr (transactions', attempts', rng'))"
        using "1.prems"(1) eq gen False by simp
      have inv: "I (insert tx seen) (transactions @ [tx]) (attempts + 1)" using st False by simp
      show ?thesis
        using "1.IH"(2) [OF \<open>int (length transactions) < num_tx \<and> attempts < max_attempts\<close> gen refl refl False run inv step1] .
    qed
  qed
qed


lemma main_loop_result:
  assumes "main_loop items clusters cluster_weights item_weights num_tx max_attempts
             {} [] 0 rng = Some (Inr (transactions, attempts, rng'))"
  shows "distinct transactions
       \<and> (\<forall>tx\<in>set transactions. subseq tx items \<and> set tx \<subseteq> set items)
       \<and> int (length transactions) \<le> max 0 num_tx
       \<and> 0 \<le> attempts \<and> attempts \<le> max 0 max_attempts
       \<and> int (length transactions) \<le> attempts
       \<and> \<not> (int (length transactions) < num_tx \<and> attempts < max_attempts)"
proof -
  let ?I = "\<lambda>seen transactions attempts.
       set transactions = seen \<and> distinct transactions
       \<and> (\<forall>tx\<in>set transactions. subseq tx items \<and> set tx \<subseteq> set items)
       \<and> int (length transactions) \<le> max 0 num_tx
       \<and> 0 \<le> attempts \<and> attempts \<le> max 0 max_attempts
       \<and> int (length transactions) \<le> attempts"
  have init: "?I {} [] 0" by simp
  have "\<exists>seen'. ?I seen' transactions attempts
          \<and> \<not> (int (length transactions) < num_tx \<and> attempts < max_attempts)"
  proof (rule main_loop_invariant [where I = ?I, OF assms init])
    fix seen transactions attempts rng tx rng1
    assume inv: "?I seen transactions attempts"
      and c1: "int (length transactions) < num_tx" and c2: "attempts < max_attempts"
      and gen: "generate_transaction items clusters cluster_weights item_weights rng = Some (Inr (tx, rng1))"
    have sub: "subseq tx items \<and> set tx \<subseteq> set items"
      using gen by (rule generate_transaction_subseq)
    show "(tx \<in> seen \<longrightarrow> ?I seen transactions (attempts + 1))
        \<and> (tx \<notin> seen \<longrightarrow> ?I (insert tx seen) (transactions @ [tx]) (attempts + 1))"
      using inv c1 c2 sub by auto
  qed
  then show ?thesis by blast
qed

lemma assemble_Inr:
  assumes "assemble Random items num_tx = Some (Inr (transactions, attempts))"
  shows "\<exists>clusters cluster_weights rng1 rng2.
           build_clusters items (Random (Some 42)) = Inr ((clusters, cluster_weights), rng1)
           \<and> main_loop items clusters cluster_weights (map item_weight [0..<length items])
                num_tx (num_tx * 30) {} [] 0 rng1 = Some (Inr (transactions, attempts, rng2))"
  using assms
  by (auto simp: assemble_def Let_def split: sum.splits option.splits prod.splits)

lemma assemble_result:
  assumes "assemble Random items num_tx = Some (Inr (transactions, attempts))"
  shows "distinct transactions
       \<and> (\<forall>tx\<in>set transactions. subseq tx items \<and> set tx \<subseteq> set items)
       \<and> int (length transactions) \<le> max 0 num_tx
       \<and> 0 \<le> attempts \<and> attempts \<le> max 0 (num_tx * 30)
       \<and> int (length transactions) \<le> attempts
       \<and> \<not> (int (length transactions) < num_tx \<and> attempts < num_tx * 30)"
proof -
  obtain clusters cluster_weights rng1 rng2 where
    "main_loop items clusters cluster_weights (map item_weight [0..<length items])
                num_tx (num_tx * 30) {} [] 0 rng1 = Some (Inr (transactions, attempts, rng2))"
    using assemble_Inr [OF assms] by blast
  then show ?thesis by (rule main_loop_result)
qed

lemma fill_stop:
  "\<not> int (card chosen) < len \<Longrightarrow> fill items item_weights len chosen rng = Some (Inr (chosen, rng))"
  by (subst fill.simps) (rule if_not_P)

lemma fill_step:
  assumes "int (card chosen) < len" "items \<noteq> []" "length item_weights = length items"
    "0 < sum_list item_weights"
  shows "fill items item_weights len chosen rng
       = fill items item_weights len (insert (items ! (rng 0 mod length items)) chosen) (rng_drop 1 rng)"
  by (subst fill.simps) (simp add: assms rng_choices_ok)

lemma generate_transaction_abc:
  assumes "length ws = 3" "0 < sum_list ws"
    and "rng 0 mod 3 = 0" "rng (Suc 0) mod 3 = Suc 0" "rng (Suc (Suc 0)) mod 3 = 2"
  shows "generate_transaction [''a'', ''b'', ''c''] [] [] ws rng
           = Some (Inr ([''a'', ''b'', ''c''], rng_drop 3 rng))"
proof -
  let ?items = "[''a'', ''b'', ''c'']"
  have d2: "rng_drop (Suc 0) (rng_drop (Suc 0) rng) = rng_drop 2 rng"
    by (simp add: rng_drop_def numeral_2_eq_2)
  have d3: "rng_drop (Suc 0) (rng_drop 2 rng) = rng_drop 3 rng"
    by (simp add: rng_drop_def numeral_3_eq_3)
  have s0: "fill ?items ws 3 {} rng = fill ?items ws 3 {''a''} (rng_drop (Suc 0) rng)"
    using fill_step [of "{}" 3 ?items ws rng] assms by simp
  have s1: "fill ?items ws 3 {''a''} (rng_drop (Suc 0) rng)
              = fill ?items ws 3 {''a'', ''b''} (rng_drop 2 rng)"
    using fill_step [of "{''a''}" 3 ?items ws "rng_drop (Suc 0) rng"] assms
    by (simp add: d2 rng_drop_apply insert_commute)
  have s2: "fill ?items ws 3 {''a'', ''b''} (rng_drop 2 rng)
              = fill ?items ws 3 {''a'', ''b'', ''c''} (rng_drop 3 rng)"
    using fill_step [of "{''a'', ''b''}" 3 ?items ws "rng_drop 2 rng"] assms
    by (simp add: d3 rng_drop_apply insert_commute)
  have s3: "fill ?items ws 3 {''a'', ''b'', ''c''} (rng_drop 3 rng)
              = Some (Inr ({''a'', ''b'', ''c''}, rng_drop 3 rng))"
    by (rule fill_stop) simp
  show ?thesis
    by (simp add: generate_transaction_def choose_length_small cluster_seed_none s0 s1 s2 s3)
qed

lemma assemble_abc_2:
  "assemble (\<lambda>seed i. i) [''a'', ''b'', ''c''] 2 = Some (Inr ([[''a'', ''b'', ''c'']], 60))"
proof -
  define ws where "ws = map item_weight [0..<length [''a'', ''b'', ''c'']]"
  have len: "length ws = 3" by (simp add: ws_def)
  have tot: "0 < sum_list ws" unfolding ws_def by (rule item_weights_total) simp
  have gen: "generate_transaction [''a'', ''b'', ''c''] [] [] ws (rng_drop k (\<lambda>i. i))
           = Some (Inr ([''a'', ''b'', ''c''], rng_drop (3 + k) (\<lambda>i. i)))" if "k mod 3 = 0" for k
  proof -
    have "Suc k mod 3 = Suc 0" "Suc (Suc k) mod 3 = 2" using that by presburger+
    then show ?thesis
      using generate_transaction_abc [OF len tot, of "rng_drop k (\<lambda>i. i)"] that
      by (simp add: rng_drop_apply rng_drop_drop)
  qed
  have loop: "main_loop [''a'', ''b'', ''c''] [] [] ws 2 60 {} [] 0 (rng_drop 0 (\<lambda>i. i))
                = Some (Inr ([[''a'', ''b'', ''c'']], 60, rng_drop 180 (\<lambda>i. i)))"
    by (simp add: main_loop_step main_loop_stop gen)
  show ?thesis
    unfolding assemble_def Let_def ws_def [symmetric]
    using loop by (simp add: build_clusters_def rng_drop_0)
qed

lemma sample_pool_numeral:
  "sample_pool pool (numeral n) rng =
     (case draw rng of (d, rng1) \<Rightarrow>
        let j = d mod length pool in
        case sample_pool (take j pool @ drop (Suc j) pool) (pred_numeral n) rng1 of
          (rest, rng2) \<Rightarrow> (pool ! j # rest, rng2))"
  by (simp add: numeral_eq_Suc)

lemma build_clusters_loop_numeral:
  "build_clusters_loop items (numeral n) clusters rng =
     (let k = int (length items);
          min_sz = 3;
          max_sz = min 12 k;
          max_sz = (if max_sz < min_sz then min_sz else max_sz)
      in case rng_randint min_sz max_sz rng of
           Inl e \<Rightarrow> Inl e
         | Inr (sz, rng1) \<Rightarrow>
             (case rng_sample items sz rng1 of
                Inl e \<Rightarrow> Inl e
              | Inr (c, rng2) \<Rightarrow> build_clusters_loop items (pred_numeral n) (clusters @ [c]) rng2))"
  by (simp add: numeral_eq_Suc)

lemmas run_simps = build_clusters_def Let_def build_clusters_loop_numeral sample_pool_numeral
      rng_randint_def rng_sample_def draw_def rng_random_def float_0_10_def float_0_70_def
      generate_transaction_def choose_length_def clamped_randint_def cluster_seed_def
      min_pick_def max_pick_def rng_choices_def 




lemma assemble_six:
  "assemble (\<lambda>seed i. i) [''a'', ''b'', ''c'', ''d'', ''e'', ''f''] 2
     = Some (Inr ([[''a'', ''b'', ''c'', ''f''], [''a'', ''d'', ''e'', ''f'']], 2))"
proof -
  define ws where "ws = map item_weight [0..<length [''a'', ''b'', ''c'', ''d'', ''e'', ''f'']]"
  have len: "length ws = 6" by (simp add: ws_def)
  have tot: "0 < sum_list ws" unfolding ws_def by (rule item_weights_total) simp
  show ?thesis
    unfolding assemble_def Let_def ws_def [symmetric]
    using len tot
    by (simp add: run_simps main_loop_step main_loop_stop fill_step fill_stop rng_drop_def card_insert_if)
qed

text \<open>
  C2. Every transaction of the assembled dataset is drawn from the universe and lists its
  items in the order of the universe: it is a subsequence of the universe, whatever the
  order in which the synthesizer chose the items.
\<close>

theorem assemble_within_universe:
  assumes "assemble Random items num_tx = Some (Inr (transactions, attempts))"
  shows "\<forall>tx\<in>set transactions. set tx \<subseteq> set items \<and> subseq tx items"
  using assemble_result [OF assms] by blast

theorem assemble_within_universe_witness:
  "assemble (\<lambda>seed i. i) [''a'', ''b'', ''c'', ''d'', ''e'', ''f''] 2
     = Some (Inr ([[''a'', ''b'', ''c'', ''f''], [''a'', ''d'', ''e'', ''f'']], 2))
   \<and> set [''a'', ''b'', ''c'', ''f''] \<subseteq> set [''a'', ''b'', ''c'', ''d'', ''e'', ''f'']
   \<and> subseq [''a'', ''b'', ''c'', ''f''] [''a'', ''b'', ''c'', ''d'', ''e'', ''f'']
   \<and> set [''a'', ''d'', ''e'', ''f''] \<subseteq> set [''a'', ''b'', ''c'', ''d'', ''e'', ''f'']
   \<and> subseq [''a'', ''d'', ''e'', ''f''] [''a'', ''b'', ''c'', ''d'', ''e'', ''f'']"
  using assemble_within_universe [OF assemble_six] assemble_six by simp

text \<open>
  C3. The assembled dataset has no duplicate: the transactions at two distinct positions
  of the list differ.
\<close>

theorem assemble_unique:
  assumes "assemble Random items num_tx = Some (Inr (transactions, attempts))"
  shows "\<forall>i<length transactions. \<forall>j<length transactions.
           i \<noteq> j \<longrightarrow> transactions ! i \<noteq> transactions ! j"
  using assemble_result [OF assms] by (simp add: distinct_conv_nth)

theorem assemble_unique_witness:
  "assemble (\<lambda>seed i. i) [''a'', ''b'', ''c'', ''d'', ''e'', ''f''] 2
     = Some (Inr ([[''a'', ''b'', ''c'', ''f''], [''a'', ''d'', ''e'', ''f'']], 2))
   \<and> [[''a'', ''b'', ''c'', ''f''], [''a'', ''d'', ''e'', ''f'']] ! 0
       \<noteq> [[''a'', ''b'', ''c'', ''f''], [''a'', ''d'', ''e'', ''f'']] ! 1"
  using assemble_unique [OF assemble_six] assemble_six by simp

text \<open>
  When the assembler returns for a requested count \<open>N\<close>, it made at most \<open>N * 30\<close>
  attempts (none for a negative \<open>N\<close>), it holds at most \<open>N\<close> transactions, no more than it
  made attempts, all different; a shortfall means the budget of \<open>N * 30\<close> attempts is used up.
  If the output file can be opened, the run then finishes normally: it prints the warning
  exactly on a shortfall, then the count written, and the output file holds one space-joined
  line per transaction in generation order.
\<close>

lemma assembler_best_effort:
  assumes "length argv = 4" "py_int (argv ! 2) = Some N"
    "load_items fs (argv ! 1) = Inr items" "items \<noteq> []"
    "assemble Random items N = Some (Inr (transactions, attempts))"
    "open_write fs (argv ! 3) = None"
  shows "0 \<le> attempts \<and> attempts \<le> max 0 (N * 30)
       \<and> int (length transactions) \<le> max 0 N
       \<and> int (length transactions) \<le> attempts
       \<and> distinct transactions
       \<and> (int (length transactions) < N \<longrightarrow> attempts = N * 30)
       \<and> main Random argv fs =
           Some (Finished
             ((if int (length transactions) < N then [Warning (length transactions) N] else [])
              @ [Wrote (length transactions) (argv ! 3)])
             (argv ! 3)
             (concat (map (\<lambda>tx. join_space tx @ [CHR 0x0A]) transactions)))"
proof -
  note r = assemble_result [OF assms(5)]
  have short: "int (length transactions) < N \<longrightarrow> attempts = N * 30"
    using r by auto
  have fin: "main Random argv fs =
           Some (Finished
             ((if int (length transactions) < N then [Warning (length transactions) N] else [])
              @ [Wrote (length transactions) (argv ! 3)])
             (argv ! 3)
             (concat (map (\<lambda>tx. join_space tx @ [CHR 0x0A]) transactions)))"
    using assms by (simp add: main_def Let_def write_lines_def)
  show ?thesis using r short fin by simp
qed

lemma py_int_2: "py_int ''2'' = Some 2"
  by (simp add: py_int_simps)

lemma load_items_abc: "load_items bare_directory ''a b c'' = Inr [''a'', ''b'', ''c'']"
  by (simp add: load_items_def bare_directory_def is_cwd_def split_ws_def replace_comma_def
      is_space_def)

text \<open>The shortfall on a universe of three items: 60 attempts, one line, the warning.\<close>

lemma shortfall_run_abc:
  "main (\<lambda>seed i. i) [''gen'', ''a b c'', ''2'', ''out.txt''] bare_directory
     = Some (Finished [Warning 1 2, Wrote 1 ''out.txt''] ''out.txt'' (''a b c'' @ [CHR 0x0A]))"
proof -
  have "open_write bare_directory ''out.txt'' = None"
    by (simp add: bare_directory_def is_cwd_def)
  then show ?thesis
    using assembler_best_effort [of "[''gen'', ''a b c'', ''2'', ''out.txt'']" 2 bare_directory
        "[''a'', ''b'', ''c'']" "\<lambda>seed i. i" "[[''a'', ''b'', ''c'']]" 60]
      py_int_2 load_items_abc assemble_abc_2
    by simp
qed

section \<open>The synthesizer on a fair random source\<close>

lemma fair_drop:
  assumes "fair n rng"
  shows "fair n (rng_drop k rng)"
  unfolding fair_def
proof (intro allI impI)
  fix k' v
  assume "v < n"
  then obtain j where j: "k' + k \<le> j" "rng j mod n = v"
    using assms unfolding fair_def by blast
  have "k' \<le> j - k" "rng_drop k rng (j - k) mod n = v"
    using j by (simp_all add: rng_drop_def)
  then show "\<exists>j\<ge>k'. rng_drop k rng j mod n = v" by blast
qed

lemma fair_identity: "fair n (\<lambda>i. i)"
  unfolding fair_def
proof (intro allI impI)
  fix k v :: nat
  assume v: "v < n"
  have "k \<le> k * n + v" using v by (cases n) simp_all
  moreover have "(k * n + v) mod n = v" using v by simp
  ultimately show "\<exists>j\<ge>k. j mod n = v" by blast
qed

lemma rng_randint_drop:
  assumes "a \<le> b"
  shows "\<exists>v. rng_randint a b rng = Inr (v, rng_drop 1 rng) \<and> a \<le> v \<and> v \<le> b"
  using rng_randint_range [OF assms, of rng] assms
  by (auto simp: rng_randint_def draw_drop)

lemma sample_pool_drop: "snd (sample_pool pool k rng) = rng_drop k rng"
proof (induction k arbitrary: pool rng)
  case 0
  show ?case by (simp add: rng_drop_0)
next
  case (Suc k)
  define pool' where "pool' = take (rng 0 mod length pool) pool @ drop (Suc (rng 0 mod length pool)) pool"
  obtain rest rng2 where rest: "sample_pool pool' k (rng_drop 1 rng) = (rest, rng2)"
    by (cases "sample_pool pool' k (rng_drop 1 rng)")
  have "rng2 = rng_drop k (rng_drop 1 rng)"
    using Suc [of pool' "rng_drop 1 rng"] rest by simp
  then have "rng2 = rng_drop (Suc k) rng" by (simp add: rng_drop_drop)
  moreover have "snd (sample_pool pool (Suc k) rng) = rng2"
    using rest by (simp add: draw_drop Let_def pool'_def)
  ultimately show ?case by simp
qed

lemma rng_sample_drop:
  assumes "0 \<le> k" "k \<le> int (length population)"
  shows "\<exists>c. rng_sample population k rng = Inr (c, rng_drop (nat k) rng) \<and> int (length c) = k
           \<and> set c \<subseteq> set population \<and> (distinct population \<longrightarrow> distinct c)"
proof -
  obtain c rng' where c: "rng_sample population k rng = Inr (c, rng')" "int (length c) = k"
      "set c \<subseteq> set population" "distinct population \<longrightarrow> distinct c"
    using rng_sample_props [OF assms, of rng] by blast
  have "rng' = snd (sample_pool population (nat k) rng)"
    using c(1) assms by (simp add: rng_sample_def split: if_splits)
  then have "rng' = rng_drop (nat k) rng" by (simp add: sample_pool_drop)
  then show ?thesis using c by blast
qed

lemma clamped_randint_drop:
  assumes "a \<le> b" "2 \<le> a" "2 \<le> n"
  shows "\<exists>len. clamped_randint n a b rng = Inr (len, rng_drop 1 rng) \<and> 2 \<le> len \<and> len \<le> n"
proof -
  obtain v where "rng_randint a b rng = Inr (v, rng_drop 1 rng)" "a \<le> v"
    using rng_randint_drop [OF assms(1), of rng] by blast
  then show ?thesis using assms by (simp add: clamped_randint_def)
qed

lemma choose_length_range:
  assumes "2 \<le> n"
  shows "\<exists>len k. choose_length n rng = Inr (len, rng_drop k rng) \<and> 2 \<le> len \<and> len \<le> n"
proof (cases "n \<le> 5")
  case True
  then have "choose_length n rng = Inr (n, rng_drop 0 rng)"
    using assms by (simp add: choose_length_def rng_drop_0)
  then show ?thesis using assms by blast
next
  case False
  define r where "r = real (rng 0 mod 2 ^ 53) / 2 ^ 53"
  have rand: "rng_random rng = (r, rng_drop 1 rng)"
    by (simp add: rng_random_def draw_drop r_def)
  have two: "rng_drop 1 (rng_drop 1 rng) = rng_drop (1 + 1) rng"
    by (rule rng_drop_drop)
  have cl: "\<exists>len. clamped_randint n a b (rng_drop 1 rng) = Inr (len, rng_drop (1 + 1) rng) \<and> 2 \<le> len \<and> len \<le> n"
    if "a \<le> b" "2 \<le> a" for a b
    using clamped_randint_drop [OF that assms, of "rng_drop 1 rng"] unfolding two .
  have c1: "\<exists>len. clamped_randint n 3 5 (rng_drop 1 rng) = Inr (len, rng_drop (1 + 1) rng) \<and> 2 \<le> len \<and> len \<le> n"
    by (rule cl) simp_all
  have c2: "\<exists>len. clamped_randint n 6 12 (rng_drop 1 rng) = Inr (len, rng_drop (1 + 1) rng) \<and> 2 \<le> len \<and> len \<le> n"
    by (rule cl) simp_all
  have c3: "\<exists>len. clamped_randint n 12 20 (rng_drop 1 rng) = Inr (len, rng_drop (1 + 1) rng) \<and> 2 \<le> len \<and> len \<le> n"
    by (rule cl) simp_all
  have eq: "choose_length n rng =
      (if r < float_0_10 then clamped_randint n 3 5 (rng_drop 1 rng)
       else if r < float_0_70 then clamped_randint n 6 12 (rng_drop 1 rng)
       else clamped_randint n 12 20 (rng_drop 1 rng))"
    using False by (simp add: choose_length_def rand)
  show ?thesis
    unfolding eq using c1 c2 c3 by (auto simp del: One_nat_def One_nat_def [symmetric])
qed

lemma max_pick_bounds:
  assumes "c \<noteq> []" "2 \<le> len"
  shows "min_pick c \<le> max_pick c len \<and> 0 \<le> min_pick c \<and> max_pick c len \<le> int (length c)
           \<and> max_pick c len \<le> len"
proof -
  have "1 \<le> length c" using assms(1) by (cases c) simp_all
  then show ?thesis using assms(2) by (auto simp: max_pick_def min_pick_def)
qed

lemma cluster_seed_ok:
  assumes cl: "\<forall>c\<in>set clusters. c \<noteq> [] \<and> distinct c \<and> set c \<subseteq> set items"
    and cw: "length cluster_weights = length clusters" "clusters \<noteq> [] \<longrightarrow> 0 < sum_list cluster_weights"
    and len: "2 \<le> len"
  shows "\<exists>chosen k. cluster_seed clusters cluster_weights len rng = Inr (chosen, rng_drop k rng)
           \<and> finite chosen \<and> chosen \<subseteq> set items \<and> int (card chosen) \<le> len"
proof (cases "clusters = []")
  case True
  then have "cluster_seed clusters cluster_weights len rng = Inr ({}, rng_drop 0 rng)"
    by (simp add: cluster_seed_def rng_drop_0)
  then show ?thesis using len by (intro exI [of _ "{}"] exI [of _ 0]) simp
next
  case False
  define c where "c = clusters ! (rng 0 mod length clusters)"
  have choice: "rng_choices clusters cluster_weights rng = Inr (c, rng_drop 1 rng)"
    using False cw by (simp add: rng_choices_ok c_def)
  have "c \<in> set clusters" using False by (simp add: c_def)
  then have c: "c \<noteq> []" "distinct c" "set c \<subseteq> set items" using cl by auto
  note b = max_pick_bounds [OF c(1) len]
  define rng1 where "rng1 = rng_drop 1 rng"
  define rng2 where "rng2 = rng_drop 1 rng1"
  have "min_pick c \<le> max_pick c len" using b by simp
  then obtain pick where pick: "rng_randint (min_pick c) (max_pick c len) rng1 = Inr (pick, rng2)"
      "min_pick c \<le> pick" "pick \<le> max_pick c len"
    using rng_randint_drop [of "min_pick c" "max_pick c len" rng1] unfolding rng2_def by blast
  have "0 \<le> pick" "pick \<le> int (length c)" using pick b by linarith+
  then obtain picked where picked:
      "rng_sample c pick rng2 = Inr (picked, rng_drop (nat pick) rng2)"
      "int (length picked) = pick" "set picked \<subseteq> set c" "distinct picked"
    using rng_sample_drop [of pick c rng2] c(2) by blast
  have "rng_drop (nat pick) rng2 = rng_drop (nat pick + 1 + 1) rng"
    unfolding rng2_def rng1_def rng_drop_drop by (simp add: add.assoc)
  then have seed: "cluster_seed clusters cluster_weights len rng
                     = Inr (set picked, rng_drop (nat pick + 1 + 1) rng)"
    using False choice pick(1) picked(1) unfolding rng1_def [symmetric]
    by (simp add: cluster_seed_def)
  have "card (set picked) = length picked" using picked(4) by (rule distinct_card)
  then have "int (card (set picked)) \<le> len" using picked(2) pick(3) b by linarith
  then show ?thesis using seed picked(3) c(3)
    by (intro exI [of _ "set picked"] exI [of _ "nat pick + 1 + 1"]) auto
qed

lemma fill_skip:
  assumes "int (card chosen) < len" "items \<noteq> []" "length item_weights = length items"
    "0 < sum_list item_weights"
  shows "\<forall>i<j. items ! (rng i mod length items) \<in> chosen \<Longrightarrow>
         fill items item_weights len chosen rng = fill items item_weights len chosen (rng_drop j rng)"
proof (induction j arbitrary: rng)
  case 0
  show ?case by (simp add: rng_drop_0)
next
  case (Suc j)
  have first: "items ! (rng 0 mod length items) \<in> chosen" using Suc.prems by simp
  have rest: "\<forall>i<j. items ! (rng_drop 1 rng i mod length items) \<in> chosen"
    using Suc.prems by (simp add: rng_drop_def)
  have "fill items item_weights len chosen rng
          = fill items item_weights len (insert (items ! (rng 0 mod length items)) chosen) (rng_drop 1 rng)"
    by (rule fill_step [OF assms])
  also have "\<dots> = fill items item_weights len chosen (rng_drop 1 rng)"
    using first by (simp add: insert_absorb)
  also have "\<dots> = fill items item_weights len chosen (rng_drop j (rng_drop 1 rng))"
    by (rule Suc.IH [OF rest])
  also have "rng_drop j (rng_drop 1 rng) = rng_drop (Suc j) rng"
    by (simp add: rng_drop_drop)
  finally show ?case .
qed

lemma fill_total:
  assumes "items \<noteq> []" "length item_weights = length items" "0 < sum_list item_weights"
    and "len \<le> int (card (set items))"
  shows "finite chosen \<Longrightarrow> chosen \<subseteq> set items \<Longrightarrow> fair (length items) rng \<Longrightarrow>
         \<exists>chosen' k. fill items item_weights len chosen rng = Some (Inr (chosen', rng_drop k rng))"
proof (induction "nat (len - int (card chosen))" arbitrary: chosen rng rule: less_induct)
  case less
  show ?case
  proof (cases "int (card chosen) < len")
    case False
    then have "fill items item_weights len chosen rng = Some (Inr (chosen, rng_drop 0 rng))"
      by (simp add: fill_stop rng_drop_0)
    then show ?thesis by blast
  next
    case True
    let ?n = "length items"
    let ?new = "\<lambda>j. items ! (rng j mod ?n) \<notin> chosen"
    have "card chosen < card (set items)" using True assms(4) by linarith
    then have "chosen \<noteq> set items" by auto
    then obtain x where x: "x \<in> set items" "x \<notin> chosen" using less.prems(2) by auto
    then obtain v where v: "v < ?n" "items ! v = x" by (auto simp: in_set_conv_nth)
    obtain j where "rng j mod ?n = v" using less.prems(3) v(1) unfolding fair_def by blast
    then have ex: "?new j" using v x by simp
    define j0 where "j0 = (LEAST j. ?new j)"
    have new: "?new j0" unfolding j0_def using ex by (rule LeastI)
    have old: "\<forall>i<j0. items ! (rng i mod ?n) \<in> chosen"
      unfolding j0_def using not_less_Least by blast
    define y where "y = items ! (rng j0 mod ?n)"
    have y: "y \<notin> chosen" "y \<in> set items" using new assms(1) by (simp_all add: y_def)
    have "fill items item_weights len chosen rng = fill items item_weights len chosen (rng_drop j0 rng)"
      by (rule fill_skip [OF True assms(1-3) old])
    also have "\<dots> = fill items item_weights len (insert y chosen) (rng_drop 1 (rng_drop j0 rng))"
      using fill_step [OF True assms(1-3), of "rng_drop j0 rng"] by (simp add: rng_drop_def y_def)
    finally have eq: "fill items item_weights len chosen rng
                    = fill items item_weights len (insert y chosen) (rng_drop (Suc j0) rng)"
      by (simp add: rng_drop_drop)
    have card: "card (insert y chosen) = Suc (card chosen)" using y less.prems(1) by simp
    have dec: "nat (len - int (card (insert y chosen))) < nat (len - int (card chosen))"
      using True card by linarith
    have "\<exists>chosen' k. fill items item_weights len (insert y chosen) (rng_drop (Suc j0) rng)
             = Some (Inr (chosen', rng_drop k (rng_drop (Suc j0) rng)))"
      using less.hyps [OF dec] less.prems y fair_drop by simp
    then show ?thesis unfolding eq rng_drop_drop by blast
  qed
qed


lemma generate_transaction_unfold:
  assumes "choose_length (int (length items)) rng = Inr (len, rng1)"
    "cluster_seed clusters cluster_weights len rng1 = Inr (chosen, rng2)"
    "fill items item_weights len chosen rng2 = Some (Inr (chosen', rng3))"
  shows "generate_transaction items clusters cluster_weights item_weights rng
           = Some (Inr (filter (\<lambda>it. it \<in> chosen') items, rng3))"
  using assms by (simp add: generate_transaction_def)

lemma generate_transaction_total:
  assumes "distinct items" "2 \<le> length items"
    and "\<forall>c\<in>set clusters. c \<noteq> [] \<and> distinct c \<and> set c \<subseteq> set items"
    and "length cluster_weights = length clusters"
      "clusters \<noteq> [] \<longrightarrow> 0 < sum_list cluster_weights"
    and "length item_weights = length items" "0 < sum_list item_weights"
    and "fair (length items) rng"
  shows "\<exists>len rng1 chosen rng2 tx k.
           choose_length (int (length items)) rng = Inr (len, rng1)
           \<and> 2 \<le> len \<and> len \<le> int (length items)
           \<and> (\<forall>c\<in>set clusters. max_pick c len \<le> len)
           \<and> cluster_seed clusters cluster_weights len rng1 = Inr (chosen, rng2)
           \<and> int (card chosen) \<le> len
           \<and> generate_transaction items clusters cluster_weights item_weights rng
                = Some (Inr (tx, rng_drop k rng))
           \<and> int (length tx) = len \<and> distinct tx \<and> set tx \<subseteq> set items"
proof -
  have ne: "items \<noteq> []" using assms(2) by auto
  have n: "2 \<le> int (length items)" using assms(2) by simp
  obtain len k1 where len: "choose_length (int (length items)) rng = Inr (len, rng_drop k1 rng)"
      "2 \<le> len" "len \<le> int (length items)"
    using choose_length_range [OF n, of rng] by blast
  have picks: "\<forall>c\<in>set clusters. max_pick c len \<le> len"
    using assms(3) max_pick_bounds [OF _ len(2)] by blast
  obtain chosen k2 where seed:
      "cluster_seed clusters cluster_weights len (rng_drop k1 rng) = Inr (chosen, rng_drop k2 (rng_drop k1 rng))"
      "finite chosen" "chosen \<subseteq> set items" "int (card chosen) \<le> len"
    using cluster_seed_ok [OF assms(3,4,5) len(2), of "rng_drop k1 rng"] by blast
  have cardu: "card (set items) = length items" using assms(1) by (rule distinct_card)
  have le: "len \<le> int (card (set items))" using len(3) cardu by simp
  have fairk: "fair (length items) (rng_drop k2 (rng_drop k1 rng))"
    using assms(8) by (intro fair_drop)
  obtain chosen' k3 where run:
      "fill items item_weights len chosen (rng_drop k2 (rng_drop k1 rng))
         = Some (Inr (chosen', rng_drop k3 (rng_drop k2 (rng_drop k1 rng))))"
    using fill_total [OF ne assms(6,7) le seed(2,3) fairk] by blast
  note res = fill_result [OF run seed(2)]
  have sub: "chosen' \<subseteq> set items" using res seed(3) by blast
  have card': "int (card chosen') = len" using res seed(4) by simp
  define tx where "tx = filter (\<lambda>it. it \<in> chosen') items"
  have "generate_transaction items clusters cluster_weights item_weights rng
               = Some (Inr (tx, rng_drop k3 (rng_drop k2 (rng_drop k1 rng))))"
    unfolding tx_def using len(1) seed(1) run by (rule generate_transaction_unfold)
  then have gen: "generate_transaction items clusters cluster_weights item_weights rng
               = Some (Inr (tx, rng_drop (k3 + (k2 + k1)) rng))"
    by (simp only: rng_drop_drop)
  have "{x. x \<in> chosen'} \<inter> set items = chosen'" using sub by auto
  then have "length tx = card chosen'"
    unfolding tx_def using distinct_length_filter [OF assms(1), of "\<lambda>it. it \<in> chosen'"] by simp
  then have lentx: "int (length tx) = len" using card' by simp
  have dtx: "distinct tx" "set tx \<subseteq> set items" using assms(1) by (auto simp: tx_def)
  show ?thesis
    using len picks seed(1,4) gen lentx dtx by blast
qed

text \<open>
  C10. On a universe of at least two distinct items, with clusters that are non-empty lists
  of distinct universe items and weights the library accepts, and a random source that is
  fair for the universe: the target length chosen in step 1 lies between 2 and the universe
  size; the largest pick count of every cluster is at most the target length, and the set
  seeded from the cluster holds at most that many items; \<^verbatim>\<open>generate_transaction\<close> returns, and
  its transaction has exactly the target length, its items distinct and of the universe.
\<close>

theorem generate_transaction_exact_length:
  assumes "distinct items" "2 \<le> length items"
    and "\<forall>c\<in>set clusters. c \<noteq> [] \<and> distinct c \<and> set c \<subseteq> set items"
    and "length cluster_weights = length clusters"
      "clusters \<noteq> [] \<longrightarrow> 0 < sum_list cluster_weights"
    and "length item_weights = length items" "0 < sum_list item_weights"
    and "fair (length items) rng"
  shows "\<exists>len rng1 chosen rng2 tx rng3.
           choose_length (int (length items)) rng = Inr (len, rng1)
           \<and> 2 \<le> len \<and> len \<le> int (length items)
           \<and> (\<forall>c\<in>set clusters. max_pick c len \<le> len)
           \<and> cluster_seed clusters cluster_weights len rng1 = Inr (chosen, rng2)
           \<and> int (card chosen) \<le> len
           \<and> generate_transaction items clusters cluster_weights item_weights rng
                = Some (Inr (tx, rng3))
           \<and> int (length tx) = len \<and> distinct tx \<and> set tx \<subseteq> set items"
  using generate_transaction_total [OF assms] by blast

theorem generate_transaction_exact_length_witness:
  "distinct [''a'', ''b'', ''c'', ''d'', ''e'', ''f'']
   \<and> fair (length [''a'', ''b'', ''c'', ''d'', ''e'', ''f'']) (\<lambda>i. i)
   \<and> (\<exists>len rng1 tx rng3.
         choose_length (int (length [''a'', ''b'', ''c'', ''d'', ''e'', ''f''])) (\<lambda>i. i) = Inr (len, rng1)
         \<and> 2 \<le> len \<and> len \<le> 6
         \<and> generate_transaction [''a'', ''b'', ''c'', ''d'', ''e'', ''f'']
              [[''b'', ''d'', ''f''], [''f'', ''b'', ''e''], [''d'', ''a'', ''f'']]
              [1, 1 / 2, 1 / 3]
              (map item_weight [0..<length [''a'', ''b'', ''c'', ''d'', ''e'', ''f'']]) (\<lambda>i. i)
            = Some (Inr (tx, rng3))
         \<and> int (length tx) = len)"
proof -
  let ?items = "[''a'', ''b'', ''c'', ''d'', ''e'', ''f'']"
  have tot: "0 < sum_list (map item_weight [0..<length ?items])"
    by (rule item_weights_total) simp
  have cl: "\<forall>c\<in>set [[''b'', ''d'', ''f''], [''f'', ''b'', ''e''], [''d'', ''a'', ''f'']].
              c \<noteq> [] \<and> distinct c \<and> set c \<subseteq> set ?items"
    by simp
  have fr: "fair (length ?items) (\<lambda>i. i)" by (rule fair_identity)
  show ?thesis
    using generate_transaction_exact_length [of ?items
        "[[''b'', ''d'', ''f''], [''f'', ''b'', ''e''], [''d'', ''a'', ''f'']]"
        "[1, 1 / 2, 1 / 3]" "map item_weight [0..<length ?items]" "\<lambda>i. i", OF _ _ cl _ _ _ tot fr]
      fr
    by (simp del: upt_Suc) blast
qed


lemma rng_sample_subset:
  "rng_sample population k rng = Inr (c, rng') \<Longrightarrow> set c \<subseteq> set population"
  using rng_sample_props [of k population rng]
  by (auto simp: rng_sample_def split: if_splits)

lemma cluster_seed_result:
  assumes "cluster_seed clusters cluster_weights len rng = Inr (chosen, rng')"
  shows "finite chosen \<and> (\<exists>c. (c \<in> set clusters \<or> c = []) \<and> chosen \<subseteq> set c)"
proof (cases "clusters = []")
  case True
  then show ?thesis using assms by (auto simp: cluster_seed_def)
next
  case False
  obtain c rng1 where c: "rng_choices clusters cluster_weights rng = Inr (c, rng1)"
    using assms False by (auto simp: cluster_seed_def split: sum.splits)
  obtain pick rng2 where pick: "rng_randint (min_pick c) (max_pick c len) rng1 = Inr (pick, rng2)"
    using assms False c by (auto simp: cluster_seed_def split: sum.splits)
  obtain picked where picked: "rng_sample c pick rng2 = Inr (picked, rng')" "chosen = set picked"
    using assms False c pick by (auto simp: cluster_seed_def split: sum.splits)
  have "c \<in> set clusters" using rng_choices_Inr [OF c] by simp
  moreover have "set picked \<subseteq> set c" using picked(1) by (rule rng_sample_subset)
  ultimately show ?thesis using picked(2) by auto
qed

lemma generate_transaction_small_universe:
  assumes "generate_transaction items clusters cluster_weights item_weights rng = Some (Inr (tx, rng'))"
    and "length items \<le> 5" "distinct items" "\<forall>c\<in>set clusters. set c \<subseteq> set items"
  shows "tx = items \<and> 2 \<le> length items"
proof -
  let ?len = "max 2 (int (length items))"
  have len: "choose_length (int (length items)) rng = Inr (?len, rng)"
    using assms(2) by (simp add: choose_length_small)
  obtain chosen rng2 where seed: "cluster_seed clusters cluster_weights ?len rng = Inr (chosen, rng2)"
    using assms(1) len by (auto simp: generate_transaction_def split: sum.splits)
  obtain chosen' where run: "fill items item_weights ?len chosen rng2 = Some (Inr (chosen', rng'))"
      and tx: "tx = filter (\<lambda>it. it \<in> chosen') items"
    using assms(1) len seed
    by (auto simp: generate_transaction_def split: sum.splits option.splits)
  have fin: "finite chosen" and sub: "chosen \<subseteq> set items"
    using cluster_seed_result [OF seed] assms(4) by auto
  note res = fill_result [OF run fin]
  have sub': "chosen' \<subseteq> set items" using res sub by blast
  have "card chosen' \<le> card (set items)" using sub' by (simp add: card_mono)
  moreover have "card (set items) = length items" using assms(3) by (rule distinct_card)
  moreover have "?len \<le> int (card chosen')" using res by simp
  ultimately have big: "2 \<le> length items" "card chosen' = card (set items)" by linarith+
  then have "chosen' = set items" using sub' by (simp add: card_subset_eq)
  then show ?thesis using tx big(1) by simp
qed

text \<open>
  Without any assumption on the random source: the synthesizer raises nothing, and a
  transaction it returns has the target length.
\<close>

lemma generate_transaction_partial:
  assumes "distinct items" "2 \<le> length items"
    and "\<forall>c\<in>set clusters. c \<noteq> [] \<and> distinct c \<and> set c \<subseteq> set items"
    and "length cluster_weights = length clusters"
      "clusters \<noteq> [] \<longrightarrow> 0 < sum_list cluster_weights"
    and "length item_weights = length items" "0 < sum_list item_weights"
    and "generate_transaction items clusters cluster_weights item_weights rng = Some res"
  shows "\<exists>len rng1 tx rng'. choose_length (int (length items)) rng = Inr (len, rng1)
           \<and> res = Inr (tx, rng') \<and> int (length tx) = len"
proof -
  have ne: "items \<noteq> []" using assms(2) by auto
  have n: "2 \<le> int (length items)" using assms(2) by simp
  obtain len k1 where len: "choose_length (int (length items)) rng = Inr (len, rng_drop k1 rng)"
      "2 \<le> len" "len \<le> int (length items)"
    using choose_length_range [OF n, of rng] by blast
  obtain chosen k2 where seed:
      "cluster_seed clusters cluster_weights len (rng_drop k1 rng) = Inr (chosen, rng_drop k2 (rng_drop k1 rng))"
      "finite chosen" "chosen \<subseteq> set items" "int (card chosen) \<le> len"
    using cluster_seed_ok [OF assms(3,4,5) len(2), of "rng_drop k1 rng"] by blast
  obtain fres where fres: "fill items item_weights len chosen (rng_drop k2 (rng_drop k1 rng)) = Some fres"
    using assms(8) len(1) seed(1) by (auto simp: generate_transaction_def split: option.splits)
  obtain chosen' rng' where ok: "fres = Inr (chosen', rng')"
    using fill_never_errs [OF fres ne assms(6,7)] by blast
  note run = fres [unfolded ok]
  note r = fill_result [OF run seed(2)]
  have sub: "chosen' \<subseteq> set items" using r seed(3) by blast
  have card': "int (card chosen') = len" using r seed(4) by simp
  have res: "res = Inr (filter (\<lambda>it. it \<in> chosen') items, rng')"
    using assms(8) generate_transaction_unfold [OF len(1) seed(1) run] by simp
  have "{x. x \<in> chosen'} \<inter> set items = chosen'" using sub by auto
  then have "length (filter (\<lambda>it. it \<in> chosen') items) = card chosen'"
    using distinct_length_filter [OF assms(1), of "\<lambda>it. it \<in> chosen'"] by simp
  then show ?thesis using len(1) res card' by simp
qed

section \<open>Termination of the run\<close>

lemma rng_randint_suffix: "rng_randint a b rng = Inr (v, rng') \<Longrightarrow> rng' = rng_drop 1 rng"
  by (auto simp: rng_randint_def draw_drop split: if_splits)

lemma rng_sample_suffix: "rng_sample population k rng = Inr (c, rng') \<Longrightarrow> rng' = rng_drop (nat k) rng"
  using sample_pool_drop [of population "nat k" rng]
  by (auto simp: rng_sample_def split: if_splits)

lemma build_clusters_loop_suffix:
  "build_clusters_loop items n clusters rng = Inr (clusters', rng') \<Longrightarrow> \<exists>k. rng' = rng_drop k rng"
proof (induction n arbitrary: clusters rng)
  case 0
  then have "rng' = rng_drop 0 rng" by (simp add: rng_drop_0)
  then show ?case by blast
next
  case (Suc n)
  let ?hi = "if min 12 (int (length items)) < 3 then 3 else min 12 (int (length items))"
  obtain sz rng1 where sz: "rng_randint 3 ?hi rng = Inr (sz, rng1)"
    using Suc.prems by (auto simp: Let_def split: sum.splits)
  obtain c rng2 where c: "rng_sample items sz rng1 = Inr (c, rng2)"
    using Suc.prems sz by (auto simp: Let_def split: sum.splits)
  have "build_clusters_loop items n (clusters @ [c]) rng2 = Inr (clusters', rng')"
    using Suc.prems sz c by (auto simp: Let_def)
  then obtain k where "rng' = rng_drop k rng2" using Suc.IH by blast
  then have "rng' = rng_drop (k + (nat sz + 1)) rng"
    using rng_randint_suffix [OF sz] rng_sample_suffix [OF c] by (simp only: rng_drop_drop)
  then show ?case by blast
qed

lemma build_clusters_well_formed:
  assumes "distinct items"
  shows "\<exists>clusters cluster_weights k.
           build_clusters items rng = Inr ((clusters, cluster_weights), rng_drop k rng)
           \<and> (\<forall>c\<in>set clusters. c \<noteq> [] \<and> distinct c \<and> set c \<subseteq> set items)
           \<and> length cluster_weights = length clusters
           \<and> (clusters \<noteq> [] \<longrightarrow> 0 < sum_list cluster_weights)"
proof (cases "length items < 4")
  case True
  then have "build_clusters items rng = Inr (([], []), rng_drop 0 rng)"
    by (simp add: build_clusters_def rng_drop_0)
  then show ?thesis by (intro exI [of _ "[]"] exI [of _ 0]) simp
next
  case False
  define n where "n = nat (max 3 (min 10 (int (length items) div 5)))"
  have "3 \<le> length items" using False by simp
  then obtain new rng' where new: "build_clusters_loop items n [] rng = Inr ([] @ new, rng')"
      "\<forall>c\<in>set new. cluster_ok items c"
    using build_clusters_loop_props [OF assms, of n "[]" rng] by blast
  obtain k where k: "rng' = rng_drop k rng"
    using build_clusters_loop_suffix [OF new(1)] by blast
  define ws where "ws = map (\<lambda>i. 1 / real (i + 1)) [0..<length new]"
  have pos: "new \<noteq> [] \<longrightarrow> 0 < sum_list ws"
    unfolding ws_def by (intro impI sum_list_positive) auto
  have "build_clusters items rng = Inr ((new, ws), rng_drop k rng)"
    using False new(1) k by (simp add: build_clusters_def n_def ws_def Let_def)
  moreover have "\<forall>c\<in>set new. c \<noteq> [] \<and> distinct c \<and> set c \<subseteq> set items"
    using new(2) by (auto simp: cluster_ok_def)
  moreover have "length ws = length new" by (simp add: ws_def)
  ultimately show ?thesis using pos by blast
qed

lemma main_loop_total:
  assumes "distinct items" "2 \<le> length items"
    and "\<forall>c\<in>set clusters. c \<noteq> [] \<and> distinct c \<and> set c \<subseteq> set items"
    and "length cluster_weights = length clusters"
      "clusters \<noteq> [] \<longrightarrow> 0 < sum_list cluster_weights"
    and "length item_weights = length items" "0 < sum_list item_weights"
  shows "fair (length items) rng \<Longrightarrow>
         \<exists>transactions' attempts' rng'.
           main_loop items clusters cluster_weights item_weights num_tx max_attempts
             seen transactions attempts rng = Some (Inr (transactions', attempts', rng'))"
proof (induction "nat (max_attempts - attempts)" arbitrary: seen transactions attempts rng
        rule: less_induct)
  case less
  show ?case
  proof (cases "int (length transactions) < num_tx \<and> attempts < max_attempts")
    case False
    then show ?thesis using main_loop_stop by blast
  next
    case True
    then have c1: "int (length transactions) < num_tx" and c2: "attempts < max_attempts"
      by simp_all
    obtain tx k where gen:
        "generate_transaction items clusters cluster_weights item_weights rng
           = Some (Inr (tx, rng_drop k rng))"
      using generate_transaction_total [OF assms less.prems] by blast
    have fairk: "fair (length items) (rng_drop k rng)" using less.prems by (rule fair_drop)
    have dec: "nat (max_attempts - (attempts + 1)) < nat (max_attempts - attempts)"
      using c2 by linarith
    note ih = less.hyps [OF dec fairk]
    show ?thesis
      using main_loop_step [OF c1 c2, of items clusters cluster_weights item_weights seen rng]
        gen ih [of seen transactions] ih [of "insert tx seen" "transactions @ [tx]"]
      by (cases "tx \<in> seen") simp_all
  qed
qed

text \<open>
  The run on a universe of at least two items returns whenever the random source is fair
  for it: the only run that cannot return on a fair source is the one on a single item.
\<close>

lemma main_returns_on_fair_source:
  assumes "length argv = 4" "py_int (argv ! 2) = Some num_tx"
    and "load_items fs (argv ! 1) = Inr items" "2 \<le> length items"
    and "fair (length items) (Random (Some 42))"
  shows "\<exists>oc. main Random argv fs = Some oc"
proof -
  have d: "distinct items" using assms(3) by (rule load_items_distinct)
  have n: "2 \<le> length items" and ne: "items \<noteq> []" using assms(4) by auto
  obtain clusters cluster_weights k where cl:
      "build_clusters items (Random (Some 42))
         = Inr ((clusters, cluster_weights), rng_drop k (Random (Some 42)))"
      "\<forall>c\<in>set clusters. c \<noteq> [] \<and> distinct c \<and> set c \<subseteq> set items"
      "length cluster_weights = length clusters"
      "clusters \<noteq> [] \<longrightarrow> 0 < sum_list cluster_weights"
    using build_clusters_well_formed [OF d, of "Random (Some 42)"] by blast
  have fairk: "fair (length items) (rng_drop k (Random (Some 42)))"
    using assms(5) by (rule fair_drop)
  have len: "length (map item_weight [0..<length items]) = length items" by simp
  obtain transactions attempts rng' where loop:
      "main_loop items clusters cluster_weights (map item_weight [0..<length items]) num_tx
         (num_tx * 30) {} [] 0 (rng_drop k (Random (Some 42)))
         = Some (Inr (transactions, attempts, rng'))"
    using main_loop_total [OF d n cl(2,3,4) len item_weights_total [OF ne] fairk] by blast
  have "assemble Random items num_tx = Some (Inr (transactions, attempts))"
    using cl(1) loop by (simp add: assemble_def)
  then show ?thesis
    using assms(1,2,3) ne by (cases "open_write fs (argv ! 3)") (simp_all add: main_def Let_def)
qed

section \<open>Determinism\<close>

lemma assemble_cong:
  "Random1 (Some 42) = Random2 (Some 42) \<Longrightarrow>
     assemble Random1 items num_tx = assemble Random2 items num_tx"
  by (simp add: assemble_def)

lemma load_items_cong:
  assumes "path_exists fs1 spec = path_exists fs2 spec" "read_text fs1 spec = read_text fs2 spec"
  shows "load_items fs1 spec = load_items fs2 spec"
  unfolding load_items_def assms by (rule refl)

text \<open>
  C1. Take two runs of the script with the same item specification, count and output path.
  The library seeds alike in both, while the generator it would seed from the operating
  system may differ, as may the script's name and everything in the two file systems
  except what they answer for the item specification and for opening the output path.
  Because the run builds its one generator from the seed 42 and consults nothing else,
  the two runs end alike: neither returns, or both end in the same way with the same
  printed lines and the same text written to the output file.
\<close>

theorem main_deterministic:
  assumes "\<And>seed. Random1 (Some seed) = Random2 (Some seed)"
    and "path_exists fs1 item_spec = path_exists fs2 item_spec"
    and "read_text fs1 item_spec = read_text fs2 item_spec"
    and "open_write fs1 out_path = open_write fs2 out_path"
  shows "main Random1 [prog1, item_spec, count, out_path] fs1
       = main Random2 [prog2, item_spec, count, out_path] fs2"
proof -
  have a: "assemble Random1 = assemble Random2"
    by (intro ext) (rule assemble_cong [of Random1 Random2, OF assms(1)])
  have l: "load_items fs1 item_spec = load_items fs2 item_spec"
    using assms(2,3) by (rule load_items_cong)
  show ?thesis
    unfolding main_def a
    by (simp add: l assms(4) Let_def split: option.split sum.split prod.split)
qed

lemma main_six:
  "main (\<lambda>x. case x of None \<Rightarrow> (\<lambda>i. 0) | Some seed \<Rightarrow> (\<lambda>i. i + nat \<bar>seed - 42\<bar>))
     [''gen'', ''a b c d e f'', ''2'', ''out.txt''] bare_directory
   = Some (Finished [Wrote 2 ''out.txt''] ''out.txt''
       (''a b c f'' @ [CHR 0x0A] @ ''a d e f'' @ [CHR 0x0A]))"
proof -
  let ?Random = "\<lambda>x. case x of None \<Rightarrow> (\<lambda>i. 0) | Some seed \<Rightarrow> (\<lambda>i. i + nat \<bar>seed - 42\<bar>)"
  have items: "load_items bare_directory ''a b c d e f''
                 = Inr [''a'', ''b'', ''c'', ''d'', ''e'', ''f'']"
    by (simp add: load_items_def bare_directory_def is_cwd_def split_ws_def replace_comma_def
        is_space_def)
  have "assemble ?Random [''a'', ''b'', ''c'', ''d'', ''e'', ''f''] 2
          = assemble (\<lambda>seed i. i) [''a'', ''b'', ''c'', ''d'', ''e'', ''f''] 2"
    by (rule assemble_cong) simp
  then have asm: "assemble ?Random [''a'', ''b'', ''c'', ''d'', ''e'', ''f''] 2
          = Some (Inr ([[''a'', ''b'', ''c'', ''f''], [''a'', ''d'', ''e'', ''f'']], 2))"
    by (simp only: assemble_six)
  have out: "open_write bare_directory ''out.txt'' = None"
    by (simp add: bare_directory_def is_cwd_def)
  show ?thesis
    using items asm out by (simp add: main_def py_int_2 write_lines_def Let_def numeral_2_eq_2)
qed

theorem main_deterministic_witness:
  "main (\<lambda>x. case x of None \<Rightarrow> (\<lambda>i. 0) | Some seed \<Rightarrow> (\<lambda>i. i + nat \<bar>seed - 42\<bar>))
     [''gen'', ''a b c d e f'', ''2'', ''out.txt''] bare_directory
   = Some (Finished [Wrote 2 ''out.txt''] ''out.txt''
       (''a b c f'' @ [CHR 0x0A] @ ''a d e f'' @ [CHR 0x0A]))
   \<and> main (\<lambda>x. case x of None \<Rightarrow> (\<lambda>i. 7 * i) | Some seed \<Rightarrow> (\<lambda>i. i + nat \<bar>seed - 42\<bar>))
     [''generate_transactions.py'', ''a b c d e f'', ''2'', ''out.txt'']
     \<lparr> path_exists = (\<lambda>p. Inr (p = ''notes.txt'')),
       read_text = (\<lambda>p. if p = ''notes.txt'' then Inr ''x y'' else Inl OSError),
       open_write = (\<lambda>p. None) \<rparr>
   = Some (Finished [Wrote 2 ''out.txt''] ''out.txt''
       (''a b c f'' @ [CHR 0x0A] @ ''a d e f'' @ [CHR 0x0A]))"
proof -
  have same: "main (\<lambda>x. case x of None \<Rightarrow> (\<lambda>i. 0) | Some seed \<Rightarrow> (\<lambda>i. i + nat \<bar>seed - 42\<bar>))
     [''gen'', ''a b c d e f'', ''2'', ''out.txt''] bare_directory
   = main (\<lambda>x. case x of None \<Rightarrow> (\<lambda>i. 7 * i) | Some seed \<Rightarrow> (\<lambda>i. i + nat \<bar>seed - 42\<bar>))
     [''generate_transactions.py'', ''a b c d e f'', ''2'', ''out.txt'']
     \<lparr> path_exists = (\<lambda>p. Inr (p = ''notes.txt'')),
       read_text = (\<lambda>p. if p = ''notes.txt'' then Inr ''x y'' else Inl OSError),
       open_write = (\<lambda>p. None) \<rparr>"
    by (rule main_deterministic) (simp_all add: bare_directory_def is_cwd_def)
  show ?thesis using main_six same by simp
qed

end
